theory Spec2Isabelle
  imports Main
begin

section \<open>Configuration (example/main.go)\<close>

text \<open>
  Go strings are byte sequences, as HOL's \<open>string\<close> is. The process environment is a
  partial map from variable names to values: a variable can be unset (\<open>None\<close>), set to
  the empty string (\<open>Some []\<close>) or set to a non-empty value.
\<close>

type_synonym environ = "string \<rightharpoonup> string"

text \<open>A Go \<open>error\<close> value: \<open>None\<close> is \<open>nil\<close>, \<open>Some m\<close> an error whose message is \<open>m\<close>.\<close>

type_synonym go_error = "string option"

subsection \<open>The constants of main.go, lines 19 to 64\<close>

definition defWSHost :: string where "defWSHost = ''0.0.0.0''"
definition defWSPath :: string where "defWSPath = ''/mqtt''"
definition defWSPort :: string where "defWSPort = ''8083''"
definition defWSSPath :: string where "defWSSPath = ''/mqtt''"
definition defWSSPort :: string where "defWSSPort = ''8081''"
definition defWSTargetScheme :: string where "defWSTargetScheme = ''ws''"
definition defWSTargetHost :: string where "defWSTargetHost = ''localhost''"
definition defWSTargetPort :: string where "defWSTargetPort = ''8888''"
definition defWSTargetPath :: string where "defWSTargetPath = ''/mqtt''"

definition envWSHost :: string where "envWSHost = ''MPROXY_WS_HOST''"
definition envWSPort :: string where "envWSPort = ''MPROXY_WS_PORT''"
definition envWSPath :: string where "envWSPath = ''MPROXY_WS_PATH''"
definition envWSSPort :: string where "envWSSPort = ''MPROXY_WSS_PORT''"
definition envWSSPath :: string where "envWSSPath = ''MPROXY_WSS_PATH''"
definition envWSTargetScheme :: string where "envWSTargetScheme = ''MPROXY_WS_TARGET_SCHEME''"
definition envWSTargetHost :: string where "envWSTargetHost = ''MPROXY_WS_TARGET_HOST''"
definition envWSTargetPort :: string where "envWSTargetPort = ''MPROXY_WS_TARGET_PORT''"
definition envWSTargetPath :: string where "envWSTargetPath = ''MPROXY_WS_TARGET_PATH''"

definition defMQTTHost :: string where "defMQTTHost = ''0.0.0.0''"
definition defMQTTPort :: string where "defMQTTPort = ''1884''"
definition defMQTTSPort :: string where "defMQTTSPort = ''8883''"
definition defMQTTTargetHost :: string where "defMQTTTargetHost = ''120.79.85.236''"
definition defMQTTTargetPort :: string where "defMQTTTargetPort = ''1883''"
definition defCACerts :: string where "defCACerts = []"
definition defServerCert :: string where "defServerCert = []"
definition defServerKey :: string where "defServerKey = []"

definition envMQTTHost :: string where "envMQTTHost = ''MPROXY_MQTT_HOST''"
definition envMQTTPort :: string where "envMQTTPort = ''MPROXY_MQTT_PORT''"
definition envMQTTSPort :: string where "envMQTTSPort = ''MPROXY_MQTTS_PORT''"
definition envMQTTTargetHost :: string where "envMQTTTargetHost = ''MPROXY_MQTT_TARGET_HOST''"
definition envMQTTTargetPort :: string where "envMQTTTargetPort = ''MPROXY_MQTT_TARGET_PORT''"
definition envCACerts :: string where "envCACerts = ''MPROXY_CA_CERTS''"
definition envServerCert :: string where "envServerCert = ''MPROXY_SERVER_CERT''"
definition envServerKey :: string where "envServerKey = ''MPROXY_SERVER_KEY''"

definition defClientTLS :: string where "defClientTLS = ''false''"
definition envClientTLS :: string where "envClientTLS = ''MPROXY_CLIENT_TLS''"
definition defLogLevel :: string where "defLogLevel = ''debug''"
definition envLogLevel :: string where "envLogLevel = ''MPROXY_LOG_LEVEL''"

subsection \<open>The config struct, lines 66 to 88\<close>

record config =
  wsHost :: string
  wsPort :: string
  wsPath :: string
  wssPort :: string
  wssPath :: string
  wsTargetScheme :: string
  wsTargetHost :: string
  wsTargetPort :: string
  wsTargetPath :: string
  mqttHost :: string
  mqttPort :: string
  mqttsPort :: string
  mqttTargetHost :: string
  mqttTargetPort :: string
  clientTLS :: bool
  caCerts :: string
  serverCert :: string
  serverKey :: string
  logLevel :: string

subsection \<open>Library calls used by the loader\<close>

text \<open>
  \<open>os.Getenv\<close> of the Go standard library returns the value of the variable, and
  the empty string when the variable is not present.
\<close>

definition Getenv :: "environ \<Rightarrow> string \<Rightarrow> string" where
  "Getenv e k = (case e k of None \<Rightarrow> [] | Some v \<Rightarrow> v)"

text \<open>
  \<open>strconv.ParseBool\<close> of the Go standard library accepts exactly twelve spellings;
  everything else is a syntax error carrying the rejected input.
\<close>

datatype parse_error = ErrSyntax string

definition ParseBool :: "string \<Rightarrow> parse_error + bool" where
  "ParseBool str =
     (if str \<in> set [''1'', ''t'', ''T'', ''TRUE'', ''true'', ''True''] then Inr True
      else if str \<in> set [''0'', ''f'', ''F'', ''FALSE'', ''false'', ''False''] then Inr False
      else Inl (ErrSyntax str))"

subsection \<open>env, lines 129 to 135\<close>

definition env :: "environ \<Rightarrow> string \<Rightarrow> string \<Rightarrow> string" where
  "env e k fallback = (let v = Getenv e k in if v \<noteq> [] then v else fallback)"

subsection \<open>loadConfig, lines 137 to 169\<close>

text \<open>
  Modelled from the spec: \<open>log.Fatalf\<close> of the logging package
  \<open>github.com/hysios/log\<close>, which is not among the source files. The specification
  calls an unparsable boolean toggle "a fatal startup error", and the standard library's
  function of that name prints the formatted message and ends the process; so the loader
  yields \<open>Inl\<close> of the message and no configuration.
\<close>

definition loadConfig :: "environ \<Rightarrow> string + config" where
  "loadConfig e =
     (case ParseBool (env e envClientTLS defClientTLS) of
        Inl err \<Rightarrow> Inl (''Invalid value passed for '' @ envClientTLS @ [CHR 0x0A])
      | Inr tls \<Rightarrow> Inr \<lparr>
          wsHost = env e envWSHost defWSHost,
          wsPort = env e envWSPort defWSPort,
          wsPath = env e envWSPath defWSPath,
          wssPort = env e envWSSPort defWSSPort,
          wssPath = env e envWSSPath defWSSPath,
          wsTargetScheme = env e envWSTargetScheme defWSTargetScheme,
          wsTargetHost = env e envWSTargetHost defWSTargetHost,
          wsTargetPort = env e envWSTargetPort defWSTargetPort,
          wsTargetPath = env e envWSTargetPath defWSTargetPath,
          mqttHost = env e envMQTTHost defMQTTHost,
          mqttPort = env e envMQTTPort defMQTTPort,
          mqttsPort = env e envMQTTSPort defMQTTSPort,
          mqttTargetHost = env e envMQTTTargetHost defMQTTTargetHost,
          mqttTargetPort = env e envMQTTTargetPort defMQTTTargetPort,
          clientTLS = tls,
          caCerts = env e envCACerts defCACerts,
          serverCert = env e envServerCert defServerCert,
          serverKey = env e envServerKey defServerKey,
          logLevel = env e envLogLevel defLogLevel \<rparr>)"

text \<open>
  The string fields of the configuration, each with the variable it is read from and its
  default, in the order of the struct literal of \<open>loadConfig\<close>.
\<close>

definition string_fields :: "((config \<Rightarrow> string) \<times> string \<times> string) list" where
  "string_fields =
     [(wsHost, envWSHost, defWSHost),
      (wsPort, envWSPort, defWSPort),
      (wsPath, envWSPath, defWSPath),
      (wssPort, envWSSPort, defWSSPort),
      (wssPath, envWSSPath, defWSSPath),
      (wsTargetScheme, envWSTargetScheme, defWSTargetScheme),
      (wsTargetHost, envWSTargetHost, defWSTargetHost),
      (wsTargetPort, envWSTargetPort, defWSTargetPort),
      (wsTargetPath, envWSTargetPath, defWSTargetPath),
      (mqttHost, envMQTTHost, defMQTTHost),
      (mqttPort, envMQTTPort, defMQTTPort),
      (mqttsPort, envMQTTSPort, defMQTTSPort),
      (mqttTargetHost, envMQTTTargetHost, defMQTTTargetHost),
      (mqttTargetPort, envMQTTTargetPort, defMQTTTargetPort),
      (caCerts, envCACerts, defCACerts),
      (serverCert, envServerCert, defServerCert),
      (serverKey, envServerKey, defServerKey),
      (logLevel, envLogLevel, defLogLevel)]"

section \<open>The handler (package main, second source file)\<close>

datatype level = Info | Error

type_synonym log_entry = "level \<times> string"

text \<open>
  Modelled from the spec: \<open>session.Client\<close>, whose declaration is not among the source
  files ("stable identifier, authentication username, authentication secret (opaque
  bytes), and the peer certificate's subject"). The handler reads four things of it: the
  identifier, the user name, the password bytes and the common name of the certificate's
  subject.
\<close>

record client =
  ID :: string
  Username :: string
  Password :: string
  CertCN :: string

text \<open>The Handler struct has no fields: one value.\<close>

datatype Handler = Handler

definition New :: Handler where
  "New = Handler"

text \<open>
  Every method takes pointers and dereferences them; a nil pointer (\<open>None\<close>) panics
  before anything is logged. \<open>Return r\<close> is a normal return with result \<open>r\<close>. The
  logger is a sink of entries, passed in and returned.
\<close>

datatype 'a outcome = Panic | Return 'a

text \<open>\<open>strings.Join\<close> of the Go standard library.\<close>

fun Join :: "string list \<Rightarrow> string \<Rightarrow> string" where
  "Join [] sep = []"
| "Join [x] sep = x"
| "Join (x # y # ys) sep = x @ sep @ Join (y # ys) sep"

definition AuthConnect ::
  "Handler \<Rightarrow> client option \<Rightarrow> log_entry list \<Rightarrow> go_error outcome \<times> log_entry list" where
  "AuthConnect h c lg =
     (case c of
        None \<Rightarrow> (Panic, lg)
      | Some cl \<Rightarrow>
          (Return None,
           lg @ [(Info, ''AuthConnect() - clientID: '' @ ID cl @ '', username: '' @ Username cl
                   @ '', password: '' @ Password cl @ '', client_CN: '' @ CertCN cl)]))"

definition AuthPublish ::
  "Handler \<Rightarrow> client option \<Rightarrow> string option \<Rightarrow> string option \<Rightarrow> log_entry list
     \<Rightarrow> go_error outcome \<times> log_entry list" where
  "AuthPublish h c topic payload lg =
     (case (c, topic, payload) of
        (Some cl, Some t, Some p) \<Rightarrow>
          (Return None,
           lg @ [(Info, ''AuthPublish() - clientID: '' @ ID cl @ '', topic: '' @ t
                   @ '', payload: '' @ p)])
      | _ \<Rightarrow> (Panic, lg))"

definition AuthSubscribe ::
  "Handler \<Rightarrow> client option \<Rightarrow> string list option \<Rightarrow> log_entry list
     \<Rightarrow> go_error outcome \<times> log_entry list" where
  "AuthSubscribe h c topics lg =
     (case (c, topics) of
        (Some cl, Some ts) \<Rightarrow>
          (Return None,
           lg @ [(Info, ''AuthSubscribe() - clientID: '' @ ID cl @ '', topics: '' @ Join ts '','')])
      | _ \<Rightarrow> (Panic, lg))"

definition Connect ::
  "Handler \<Rightarrow> client option \<Rightarrow> log_entry list \<Rightarrow> unit outcome \<times> log_entry list" where
  "Connect h c lg =
     (case c of
        None \<Rightarrow> (Panic, lg)
      | Some cl \<Rightarrow>
          (Return (),
           lg @ [(Info, ''Connect() - username: '' @ Username cl @ '', clientID: '' @ ID cl)]))"

definition Publish ::
  "Handler \<Rightarrow> client option \<Rightarrow> string option \<Rightarrow> string option \<Rightarrow> log_entry list
     \<Rightarrow> unit outcome \<times> log_entry list" where
  "Publish h c topic payload lg =
     (case (c, topic, payload) of
        (Some cl, Some t, Some p) \<Rightarrow>
          (Return (),
           lg @ [(Info, ''Publish() - username: '' @ Username cl @ '', clientID: '' @ ID cl
                   @ '', topic: '' @ t @ '', payload: '' @ p)])
      | _ \<Rightarrow> (Panic, lg))"

definition Subscribe ::
  "Handler \<Rightarrow> client option \<Rightarrow> string list option \<Rightarrow> log_entry list
     \<Rightarrow> unit outcome \<times> log_entry list" where
  "Subscribe h c topics lg =
     (case (c, topics) of
        (Some cl, Some ts) \<Rightarrow>
          (Return (),
           lg @ [(Info, ''Subscribe() - username: '' @ Username cl @ '', clientID: '' @ ID cl
                   @ '', topics: '' @ Join ts '','')])
      | _ \<Rightarrow> (Panic, lg))"

definition Unsubscribe ::
  "Handler \<Rightarrow> client option \<Rightarrow> string list option \<Rightarrow> log_entry list
     \<Rightarrow> unit outcome \<times> log_entry list" where
  "Unsubscribe h c topics lg =
     (case (c, topics) of
        (Some cl, Some ts) \<Rightarrow>
          (Return (),
           lg @ [(Info, ''Unsubscribe() - username: '' @ Username cl @ '', clientID: '' @ ID cl
                   @ '', topics: '' @ Join ts '','')])
      | _ \<Rightarrow> (Panic, lg))"

definition Disconnect ::
  "Handler \<Rightarrow> client option \<Rightarrow> log_entry list \<Rightarrow> unit outcome \<times> log_entry list" where
  "Disconnect h c lg =
     (case c of
        None \<Rightarrow> (Panic, lg)
      | Some cl \<Rightarrow>
          (Return (),
           lg @ [(Info, ''Disconnect() - client with username: '' @ Username cl @ '' and ID: ''
                   @ ID cl @ '' disconenected'')]))"

section \<open>The orchestrator: main, lines 90 to 127, and the four proxy functions\<close>

text \<open>
  The process is a set of concurrent tasks: the main goroutine, one goroutine per proxy
  function that a \<open>go\<close> statement starts, and the anonymous goroutine that waits for the
  interrupt signal. They share one thing, the buffered channel \<open>errs\<close> of capacity 3.
  The model is an interleaving semantics: a state, and events that fire one at a time.
\<close>

datatype task = ProxyWS | ProxyWSS | ProxyMQTT | ProxyMQTTS | SigWatcher

text \<open>
  A goroutine is not started yet, or runs up to and inside its blocking call (the listen
  call of a proxy function, the receive from the signal channel of the watcher), or
  stands at its one statement \<open>errs <- v\<close> holding the value \<open>v\<close>, or has returned.
\<close>

datatype tstate = NotStarted | Running | AtSend go_error | Done

text \<open>
  The places of the main goroutine, in the order of the statements of \<open>main\<close>. The
  receive \<open>var err = <-errs\<close> and the report \<open>log.Error(...)\<close> are two statements:
  between them \<open>main\<close> stands at \<open>AtReport v\<close>, holding the value \<open>v\<close> it received,
  and the other goroutines still run. When \<open>main\<close> returns the process is over.
\<close>

datatype main_pc = AtBranch | AtGo1 | AtGo2 | AtGoSignal | AtRecv | AtReport go_error | Exited

record 'tls state =
  cfg :: config
  pc :: main_pc
  tlsCfg :: "'tls option"
  errs :: "go_error list"
  tasks :: "task \<Rightarrow> tstate"
  logs :: "log_entry list"

text \<open>\<open>make(chan error, 3)\<close>\<close>

definition chan_cap :: nat where
  "chan_cap = 3"

text \<open>
  \<open>mptls.LoadTLSCfg\<close> is not among the source files and is a parameter of the model: a
  function from the three paths to the pair Go returns, the pointer to the TLS
  configuration (\<open>None\<close> is nil) and the error.
\<close>

type_synonym 'tls loader = "string \<Rightarrow> string \<Rightarrow> string \<Rightarrow> 'tls option \<times> go_error"

text \<open>The first and the second \<open>go\<close> statement of the branch taken, with their log lines.\<close>

definition first_proxy :: "config \<Rightarrow> task" where
  "first_proxy c = (if clientTLS c then ProxyWSS else ProxyWS)"

definition second_proxy :: "config \<Rightarrow> task" where
  "second_proxy c = (if clientTLS c then ProxyMQTTS else ProxyMQTT)"

definition first_msg :: "config \<Rightarrow> string" where
  "first_msg c =
     (if clientTLS c then ''Starting encrypted WebSocket proxy on port '' @ wssPort c @ '' ''
      else ''Starting WebSocket proxy on port '' @ wsPort c @ '' '')"

definition second_msg :: "config \<Rightarrow> string" where
  "second_msg c =
     (if clientTLS c then ''Starting MQTTS proxy on port '' @ mqttsPort c @ '' ''
      else ''Starting MQTT proxy on port '' @ mqttPort c @ '' '')"

text \<open>\<open>fmt.Sprintf("%s", err)\<close> on an error value; a nil error prints as Go's marker.\<close>

definition fmt_error :: "go_error \<Rightarrow> string" where
  "fmt_error err = (case err of None \<Rightarrow> ''%!s(<nil>)'' | Some m \<Rightarrow> m)"

text \<open>
  A send on the buffered channel: it appends when there is room and cannot happen
  (\<open>None\<close>: the sender stays blocked) when the buffer is full.
\<close>

definition chan_send :: "go_error \<Rightarrow> go_error list \<Rightarrow> go_error list option" where
  "chan_send v buf = (if length buf < chan_cap then Some (buf @ [v]) else None)"

text \<open>
  One step of the main goroutine. \<open>None\<close> means that it cannot move: blocked on the
  channel, or returned (the process is over).
\<close>

definition main_step :: "'tls loader \<Rightarrow> 'tls state \<Rightarrow> 'tls state option" where
  "main_step ld s =
     (case pc s of
        AtBranch \<Rightarrow>
          (if clientTLS (cfg s) then
             (case ld (caCerts (cfg s)) (serverCert (cfg s)) (serverKey (cfg s)) of
                (t, None) \<Rightarrow> Some (s\<lparr>tlsCfg := t, pc := AtGo1\<rparr>)
              | (t, Some m) \<Rightarrow>
                  (case chan_send (Some m) (errs s) of
                     None \<Rightarrow> None
                   | Some buf \<Rightarrow> Some (s\<lparr>tlsCfg := t, errs := buf, pc := AtGo1\<rparr>)))
           else Some (s\<lparr>pc := AtGo1\<rparr>))
      | AtGo1 \<Rightarrow>
          Some (s\<lparr>logs := logs s @ [(Info, first_msg (cfg s))],
                  tasks := (tasks s)(first_proxy (cfg s) := Running),
                  pc := AtGo2\<rparr>)
      | AtGo2 \<Rightarrow>
          Some (s\<lparr>logs := logs s @ [(Info, second_msg (cfg s))],
                  tasks := (tasks s)(second_proxy (cfg s) := Running),
                  pc := AtGoSignal\<rparr>)
      | AtGoSignal \<Rightarrow>
          Some (s\<lparr>tasks := (tasks s)(SigWatcher := Running), pc := AtRecv\<rparr>)
      | AtRecv \<Rightarrow>
          (case errs s of
             [] \<Rightarrow> None
           | v # buf \<Rightarrow> Some (s\<lparr>errs := buf, pc := AtReport v\<rparr>))
      | AtReport v \<Rightarrow>
          Some (s\<lparr>logs := logs s @ [(Error, ''mProxy terminated: '' @ fmt_error v)],
                  pc := Exited\<rparr>)
      | Exited \<Rightarrow> None)"

text \<open>
  The events. \<open>MainStep\<close> is the next statement of \<open>main\<close>. \<open>ListenReturns t v\<close>:
  the listen call of proxy \<open>t\<close> (\<open>wp.Listen\<close>, \<open>wp.ListenTLS\<close>, \<open>mp.Listen\<close>,
  \<open>mp.ListenTLS\<close>, all outside the source files) returns the value \<open>v\<close>. \<open>Interrupt\<close>:
  the watcher receives SIGINT from its signal channel and builds
  \<open>fmt.Errorf("%s", sig)\<close>, whose message is the signal's name, "interrupt".
  \<open>ChanSend t\<close>: task \<open>t\<close> performs its statement \<open>errs <- v\<close>. Once \<open>main\<close> has
  returned the process is over and nothing fires.
\<close>

datatype event = MainStep | ListenReturns task go_error | Interrupt | ChanSend task

fun fire :: "'tls loader \<Rightarrow> event \<Rightarrow> 'tls state \<Rightarrow> 'tls state option" where
  "fire ld MainStep s = main_step ld s"
| "fire ld (ListenReturns t v) s =
     (if pc s \<noteq> Exited \<and> t \<noteq> SigWatcher \<and> tasks s t = Running
      then Some (s\<lparr>tasks := (tasks s)(t := AtSend v)\<rparr>) else None)"
| "fire ld Interrupt s =
     (if pc s \<noteq> Exited \<and> tasks s SigWatcher = Running
      then Some (s\<lparr>tasks := (tasks s)(SigWatcher := AtSend (Some ''interrupt''))\<rparr>) else None)"
| "fire ld (ChanSend t) s =
     (case tasks s t of
        AtSend v \<Rightarrow>
          (if pc s \<noteq> Exited then
             (case chan_send v (errs s) of
                None \<Rightarrow> None
              | Some buf \<Rightarrow> Some (s\<lparr>errs := buf, tasks := (tasks s)(t := Done)\<rparr>))
           else None)
      | _ \<Rightarrow> None)"

text \<open>A schedule is a list of events; it runs while each event can fire.\<close>

fun run :: "'tls loader \<Rightarrow> event list \<Rightarrow> 'tls state \<Rightarrow> 'tls state option" where
  "run ld [] s = Some s"
| "run ld (ev # evs) s = (case fire ld ev s of None \<Rightarrow> None | Some s' \<Rightarrow> run ld evs s')"

text \<open>
  The state in which \<open>main\<close> reaches its \<open>if\<close>: the configuration is loaded, the
  channel is empty, no goroutine is started.
\<close>

definition init :: "config \<Rightarrow> 'tls state" where
  "init c = \<lparr>cfg = c, pc = AtBranch, tlsCfg = None, errs = [],
             tasks = (\<lambda>t. NotStarted), logs = []\<rparr>"

text \<open>
  The whole process: \<open>loadConfig\<close> first, which may end it, then the schedule.
  \<open>Inl\<close> is the fatal exit with its message; \<open>Inr None\<close> a schedule that cannot run.
\<close>

definition process ::
  "'tls loader \<Rightarrow> environ \<Rightarrow> event list \<Rightarrow> string + 'tls state option" where
  "process ld e evs =
     (case loadConfig e of Inl msg \<Rightarrow> Inl msg | Inr c \<Rightarrow> Inr (run ld evs (init c)))"

text \<open>What a state or a schedule shows.\<close>

definition all_tasks :: "task list" where
  "all_tasks = [ProxyWS, ProxyWSS, ProxyMQTT, ProxyMQTTS, SigWatcher]"

definition started :: "'tls state \<Rightarrow> task set" where
  "started s = {t. tasks s t \<noteq> NotStarted}"

definition listeners_started :: "'tls state \<Rightarrow> task set" where
  "listeners_started s = started s - {SigWatcher}"

definition branch :: "config \<Rightarrow> task set" where
  "branch c = (if clientTLS c then {ProxyWSS, ProxyMQTTS} else {ProxyWS, ProxyMQTT})"

definition sends_of :: "task \<Rightarrow> event list \<Rightarrow> nat" where
  "sends_of t evs = length (filter (\<lambda>ev. ev = ChanSend t) evs)"

definition blocked_writer :: "'tls state \<Rightarrow> task \<Rightarrow> bool" where
  "blocked_writer s t =
     (pc s \<noteq> Exited \<and> (case tasks s t of AtSend v \<Rightarrow> chan_send v (errs s) = None | _ \<Rightarrow> False))"

section \<open>Quantities used in the proofs\<close>

text \<open>The configuration that \<open>loadConfig\<close> yields in an empty environment.\<close>

definition plain_defaults :: config where
  "plain_defaults =
     \<lparr>wsHost = ''0.0.0.0'', wsPort = ''8083'', wsPath = ''/mqtt'', wssPort = ''8081'',
      wssPath = ''/mqtt'', wsTargetScheme = ''ws'', wsTargetHost = ''localhost'',
      wsTargetPort = ''8888'', wsTargetPath = ''/mqtt'', mqttHost = ''0.0.0.0'',
      mqttPort = ''1884'', mqttsPort = ''8883'', mqttTargetHost = ''120.79.85.236'',
      mqttTargetPort = ''1883'', clientTLS = False, caCerts = [], serverCert = [],
      serverKey = [], logLevel = ''debug''\<rparr>"

text \<open>A loader that succeeds with no configuration, and one that fails on the key file.\<close>

definition loader_ok :: "unit loader" where
  "loader_ok ca cert k = (None, None)"

definition loader_fails :: "unit loader" where
  "loader_fails ca cert k = (None, Some (''open '' @ k @ '': no such file or directory''))"

text \<open>The goroutines that exist when \<open>main\<close> stands at a given place.\<close>

definition expected_started :: "config \<Rightarrow> main_pc \<Rightarrow> task set" where
  "expected_started c p =
     (case p of
        AtBranch \<Rightarrow> {}
      | AtGo1 \<Rightarrow> {}
      | AtGo2 \<Rightarrow> {first_proxy c}
      | AtGoSignal \<Rightarrow> {first_proxy c, second_proxy c}
      | AtRecv \<Rightarrow> {first_proxy c, second_proxy c, SigWatcher}
      | AtReport v \<Rightarrow> {first_proxy c, second_proxy c, SigWatcher}
      | Exited \<Rightarrow> {first_proxy c, second_proxy c, SigWatcher})"

definition shape :: "'tls state \<Rightarrow> bool" where
  "shape s = (started s = expected_started (cfg s) (pc s))"

text \<open>
  A goroutine that has not sent yet may still send one value (\<open>weight\<close> 1); \<open>pending\<close>
  counts them, \<open>to_start\<close> counts the \<open>go\<close> statements \<open>main\<close> has still to run.
\<close>

definition weight :: "tstate \<Rightarrow> nat" where
  "weight ts = (case ts of Running \<Rightarrow> 1 | AtSend v \<Rightarrow> 1 | NotStarted \<Rightarrow> 0 | Done \<Rightarrow> 0)"

definition pending :: "'tls state \<Rightarrow> nat" where
  "pending s = sum_list (map (\<lambda>t. weight (tasks s t)) all_tasks)"

definition to_start :: "main_pc \<Rightarrow> nat" where
  "to_start p = (case p of AtBranch \<Rightarrow> 3 | AtGo1 \<Rightarrow> 3 | AtGo2 \<Rightarrow> 2 | AtGoSignal \<Rightarrow> 1
                 | AtRecv \<Rightarrow> 0 | AtReport v \<Rightarrow> 0 | Exited \<Rightarrow> 0)"

text \<open>The number of values \<open>main\<close> has taken from the channel: none before its receive, one after.\<close>

definition received :: "main_pc \<Rightarrow> nat" where
  "received p = (case p of AtReport v \<Rightarrow> 1 | Exited \<Rightarrow> 1 | _ \<Rightarrow> 0)"

definition tls_fails :: "'tls loader \<Rightarrow> config \<Rightarrow> bool" where
  "tls_fails ld c =
     (clientTLS c \<and> snd (ld (caCerts c) (serverCert c) (serverKey c)) \<noteq> None)"

text \<open>The number of values \<open>main\<close> itself has sent: the loader's error, once past the branch.\<close>

definition sent_by_main :: "'tls loader \<Rightarrow> 'tls state \<Rightarrow> nat" where
  "sent_by_main ld s = (if tls_fails ld (cfg s) \<and> pc s \<noteq> AtBranch then 1 else 0)"

definition budget :: "'tls loader \<Rightarrow> 'tls state \<Rightarrow> bool" where
  "budget ld s =
     (length (errs s) + pending s + to_start (pc s) + received (pc s)
        \<le> 3 + sent_by_main ld s)"

text \<open>The number of sends by goroutines in a schedule.\<close>

definition total_sends :: "event list \<Rightarrow> nat" where
  "total_sends evs =
     length (filter (\<lambda>ev. case ev of ChanSend t \<Rightarrow> True | _ \<Rightarrow> False) evs)"

text \<open>
  Where a value in the channel can come from: it is the error of the TLS loader (TLS mode
  on), or the value a listen call returned, or the description of the interrupt signal.
\<close>

definition origin :: "'tls loader \<Rightarrow> config \<Rightarrow> event list \<Rightarrow> go_error \<Rightarrow> bool" where
  "origin ld c evs v =
     ((clientTLS c \<and> v \<noteq> None \<and> snd (ld (caCerts c) (serverCert c) (serverKey c)) = v) \<or>
      (\<exists>t. t \<noteq> SigWatcher \<and> ListenReturns t v \<in> set evs) \<or>
      (v = Some ''interrupt'' \<and> Interrupt \<in> set evs))"

section \<open>Configuration loading\<close>

lemmas const_defs =
  defWSHost_def defWSPath_def defWSPort_def defWSSPath_def defWSSPort_def defWSTargetScheme_def
  defWSTargetHost_def defWSTargetPort_def defWSTargetPath_def envWSHost_def envWSPort_def
  envWSPath_def envWSSPort_def envWSSPath_def envWSTargetScheme_def envWSTargetHost_def
  envWSTargetPort_def envWSTargetPath_def defMQTTHost_def defMQTTPort_def defMQTTSPort_def
  defMQTTTargetHost_def defMQTTTargetPort_def defCACerts_def defServerCert_def defServerKey_def
  envMQTTHost_def envMQTTPort_def envMQTTSPort_def envMQTTTargetHost_def envMQTTTargetPort_def
  envCACerts_def envServerCert_def envServerKey_def defClientTLS_def envClientTLS_def
  defLogLevel_def envLogLevel_def

lemma env_cases: "env e k d = (case e k of None \<Rightarrow> d | Some v \<Rightarrow> if v = [] then d else v)"
  by (simp add: env_def Getenv_def split: option.splits)

lemma loadConfig_empty: "loadConfig Map.empty = Inr plain_defaults"
  by (simp add: loadConfig_def env_def Getenv_def ParseBool_def const_defs plain_defaults_def)

lemma loadConfig_tls_true:
  "loadConfig [envClientTLS \<mapsto> ''true'', envServerKey \<mapsto> ''/no/such.key''] =
     Inr (plain_defaults\<lparr>clientTLS := True, serverKey := ''/no/such.key''\<rparr>)"
  by (simp add: loadConfig_def env_def Getenv_def ParseBool_def const_defs plain_defaults_def)

lemma loadConfig_tls_empty: "loadConfig [envClientTLS \<mapsto> []] = Inr plain_defaults"
  by (simp add: loadConfig_def env_def Getenv_def ParseBool_def const_defs plain_defaults_def)

lemma loadConfig_ws_port:
  "loadConfig [envWSPort \<mapsto> ''9000''] = Inr (plain_defaults\<lparr>wsPort := ''9000''\<rparr>)"
  by (simp add: loadConfig_def env_def Getenv_def ParseBool_def const_defs plain_defaults_def)

text \<open>
  Claim C10. For every key and fallback, \<open>env\<close> returns the fallback whenever the value
  of the variable is the empty string; a variable set to the empty string gives the same
  result as the variable unset, so an empty value never overrides a default.
\<close>

theorem env_empty_value_gives_fallback:
  "Getenv e k = [] \<Longrightarrow>
     env e k fb = fb \<and> env (e(k \<mapsto> [])) k fb = env (e(k := None)) k fb"
  by (simp add: env_def Getenv_def)

text \<open>The variable of the WS port set to the empty string: the default 8083 is used.\<close>

theorem env_empty_value_gives_fallback_witness:
  "Getenv [envWSPort \<mapsto> []] envWSPort = [] \<and>
   env [envWSPort \<mapsto> []] envWSPort defWSPort = ''8083''"
  using env_empty_value_gives_fallback [of "[envWSPort \<mapsto> []]" envWSPort defWSPort]
  by (simp add: Getenv_def defWSPort_def)

text \<open>
  Claim C6, as amended. For every field of the configuration: when its variable is absent
  or set to the empty string, the field takes its default; when the variable has a
  non-empty value, the field is exactly that value. The TLS flag is the boolean that
  \<open>ParseBool\<close> reads from the value chosen in the same way.
\<close>

theorem loadConfig_fields:
  assumes "loadConfig e = Inr c"
  shows "(\<forall>(get, k, d) \<in> set string_fields.
            get c = (case e k of None \<Rightarrow> d | Some v \<Rightarrow> if v = [] then d else v)) \<and>
         ParseBool (case e envClientTLS of None \<Rightarrow> defClientTLS
                    | Some v \<Rightarrow> if v = [] then defClientTLS else v) = Inr (clientTLS c)"
proof -
  from assms obtain b where pb: "ParseBool (env e envClientTLS defClientTLS) = Inr b"
    by (auto simp: loadConfig_def split: sum.splits)
  with assms have c: "c = \<lparr>
          wsHost = env e envWSHost defWSHost,
          wsPort = env e envWSPort defWSPort,
          wsPath = env e envWSPath defWSPath,
          wssPort = env e envWSSPort defWSSPort,
          wssPath = env e envWSSPath defWSSPath,
          wsTargetScheme = env e envWSTargetScheme defWSTargetScheme,
          wsTargetHost = env e envWSTargetHost defWSTargetHost,
          wsTargetPort = env e envWSTargetPort defWSTargetPort,
          wsTargetPath = env e envWSTargetPath defWSTargetPath,
          mqttHost = env e envMQTTHost defMQTTHost,
          mqttPort = env e envMQTTPort defMQTTPort,
          mqttsPort = env e envMQTTSPort defMQTTSPort,
          mqttTargetHost = env e envMQTTTargetHost defMQTTTargetHost,
          mqttTargetPort = env e envMQTTTargetPort defMQTTTargetPort,
          clientTLS = b,
          caCerts = env e envCACerts defCACerts,
          serverCert = env e envServerCert defServerCert,
          serverKey = env e envServerKey defServerKey,
          logLevel = env e envLogLevel defLogLevel \<rparr>"
    by (simp add: loadConfig_def)
  have 1: "\<forall>(get, k, d) \<in> set string_fields. get c = env e k d"
    unfolding c string_fields_def by simp
  have 2: "clientTLS c = b" unfolding c by simp
  show ?thesis using 1 2 pb by (simp add: env_cases)
qed

text \<open>
  Only the WS port is set, to 9000: that value is used, and the MQTT port, the TLS flag
  and the log level take the defaults 1884, false and debug.
\<close>

theorem loadConfig_fields_witness:
  "loadConfig [envWSPort \<mapsto> ''9000''] = Inr (plain_defaults\<lparr>wsPort := ''9000''\<rparr>) \<and>
   wsPort (plain_defaults\<lparr>wsPort := ''9000''\<rparr>) = ''9000'' \<and>
   mqttPort (plain_defaults\<lparr>wsPort := ''9000''\<rparr>) = ''1884'' \<and>
   logLevel (plain_defaults\<lparr>wsPort := ''9000''\<rparr>) = ''debug'' \<and>
   ParseBool ''false'' = Inr (clientTLS (plain_defaults\<lparr>wsPort := ''9000''\<rparr>))"
  using loadConfig_fields [OF loadConfig_ws_port] loadConfig_ws_port
  by (simp add: string_fields_def const_defs)

text \<open>
  Claim C6 as stated fails: with the WS port variable present and empty, the field is not
  that value but the default.
\<close>

theorem empty_value_does_not_override_default:
  "[envWSPort \<mapsto> []] envWSPort = Some [] \<and>
   (case loadConfig [envWSPort \<mapsto> []] of
      Inr c \<Rightarrow> wsPort c = ''8083'' \<and> wsPort c \<noteq> []
    | Inl m \<Rightarrow> False)"
  by (simp add: loadConfig_def env_def Getenv_def ParseBool_def const_defs)

text \<open>
  Claim C3, as amended. For every environment in which \<open>MPROXY_CLIENT_TLS\<close> has a
  non-empty value that does not parse as a boolean, \<open>loadConfig\<close> ends the process with
  the fatal message, whatever the schedule: there is no state, so no listener is started.
\<close>

theorem unparsable_tls_flag_is_fatal:
  assumes "e envClientTLS = Some v" and "v \<noteq> []" and "ParseBool v = Inl err"
  shows "loadConfig e = Inl (''Invalid value passed for MPROXY_CLIENT_TLS'' @ [CHR 0x0A]) \<and>
         process ld e evs = Inl (''Invalid value passed for MPROXY_CLIENT_TLS'' @ [CHR 0x0A])"
proof -
  have "env e envClientTLS defClientTLS = v"
    using assms(1,2) by (simp add: env_def Getenv_def)
  then have "loadConfig e = Inl (''Invalid value passed for MPROXY_CLIENT_TLS'' @ [CHR 0x0A])"
    using assms(3) by (simp add: loadConfig_def envClientTLS_def)
  then show ?thesis by (simp add: process_def)
qed

theorem unparsable_tls_flag_is_fatal_witness:
  "[envClientTLS \<mapsto> ''yes''] envClientTLS = Some ''yes'' \<and> ''yes'' \<noteq> [] \<and>
   ParseBool ''yes'' = Inl (ErrSyntax ''yes'') \<and>
   process loader_ok [envClientTLS \<mapsto> ''yes''] [MainStep, MainStep, MainStep] =
     Inl (''Invalid value passed for MPROXY_CLIENT_TLS'' @ [CHR 0x0A])"
proof -
  have 1: "[envClientTLS \<mapsto> ''yes''] envClientTLS = Some ''yes''" by simp
  have 2: "''yes'' \<noteq> []" by simp
  have 3: "ParseBool ''yes'' = Inl (ErrSyntax ''yes'')" by (simp add: ParseBool_def)
  show ?thesis
    using unparsable_tls_flag_is_fatal
      [where e = "[envClientTLS \<mapsto> ''yes'']" and v = "''yes''" and err = "ErrSyntax ''yes''"
        and ld = loader_ok and evs = "[MainStep, MainStep, MainStep]"] 1 2 3
    by simp
qed

text \<open>
  Claim C3 as stated fails: the empty string does not parse as a boolean, and with the
  variable set to it the configuration loads and the plaintext listeners are started.
\<close>

theorem empty_tls_flag_is_not_fatal:
  "[envClientTLS \<mapsto> []] envClientTLS = Some [] \<and>
   ParseBool [] = Inl (ErrSyntax []) \<and>
   (case process loader_ok [envClientTLS \<mapsto> []] [MainStep, MainStep, MainStep] of
      Inr (Some s) \<Rightarrow> tasks s ProxyWS = Running \<and> tasks s ProxyMQTT = Running
    | _ \<Rightarrow> False)"
  by (simp add: ParseBool_def process_def loadConfig_tls_empty init_def main_step_def
      first_proxy_def second_proxy_def plain_defaults_def)

section \<open>The handler\<close>

lemma New_is_Handler: "New = Handler"
  by (simp add: New_def)

text \<open>
  Claim C9. For every client, topic, payload and list of topics, the three gates
  \<open>AuthConnect\<close>, \<open>AuthPublish\<close> and \<open>AuthSubscribe\<close> return a nil error: the handler
  denies nothing.
\<close>

theorem auth_gates_never_deny:
  "fst (AuthConnect h (Some c) lg) = Return None \<and>
   fst (AuthPublish h (Some c) (Some t) (Some p) lg) = Return None \<and>
   fst (AuthSubscribe h (Some c) (Some ts) lg) = Return None"
  by (simp add: AuthConnect_def AuthPublish_def AuthSubscribe_def)

lemma AuthConnect_pure: "\<exists>r out. \<forall>h lg. AuthConnect h c lg = (r, lg @ out)"
  by (cases c) (auto simp: AuthConnect_def intro: exI [of _ "[]"])

lemma AuthPublish_pure: "\<exists>r out. \<forall>h lg. AuthPublish h c t p lg = (r, lg @ out)"
  by (cases c; cases t; cases p) (auto simp: AuthPublish_def intro: exI [of _ "[]"])

lemma AuthSubscribe_pure: "\<exists>r out. \<forall>h lg. AuthSubscribe h c ts lg = (r, lg @ out)"
  by (cases c; cases ts) (auto simp: AuthSubscribe_def intro: exI [of _ "[]"])

lemma Connect_pure: "\<exists>r out. \<forall>h lg. Connect h c lg = (r, lg @ out)"
  by (cases c) (auto simp: Connect_def intro: exI [of _ "[]"])

lemma Publish_pure: "\<exists>r out. \<forall>h lg. Publish h c t p lg = (r, lg @ out)"
  by (cases c; cases t; cases p) (auto simp: Publish_def intro: exI [of _ "[]"])

lemma Subscribe_pure: "\<exists>r out. \<forall>h lg. Subscribe h c ts lg = (r, lg @ out)"
  by (cases c; cases ts) (auto simp: Subscribe_def intro: exI [of _ "[]"])

lemma Unsubscribe_pure: "\<exists>r out. \<forall>h lg. Unsubscribe h c ts lg = (r, lg @ out)"
  by (cases c; cases ts) (auto simp: Unsubscribe_def intro: exI [of _ "[]"])

lemma Disconnect_pure: "\<exists>r out. \<forall>h lg. Disconnect h c lg = (r, lg @ out)"
  by (cases c) (auto simp: Disconnect_def intro: exI [of _ "[]"])

text \<open>
  Claim C8. The Handler type has no fields, so any two handlers are equal; and for each
  of the eight methods the result and the entries it logs are fixed by the arguments
  alone: they are the same for every handler value and after every history of the log,
  that is, however the call is interleaved with calls for other clients.
\<close>

theorem handler_stateless:
  "(\<forall>h h' :: Handler. h = h') \<and>
   (\<exists>r out. \<forall>h lg. AuthConnect h c lg = (r, lg @ out)) \<and>
   (\<exists>r out. \<forall>h lg. AuthPublish h c t p lg = (r, lg @ out)) \<and>
   (\<exists>r out. \<forall>h lg. AuthSubscribe h c ts lg = (r, lg @ out)) \<and>
   (\<exists>r out. \<forall>h lg. Connect h c lg = (r, lg @ out)) \<and>
   (\<exists>r out. \<forall>h lg. Publish h c t p lg = (r, lg @ out)) \<and>
   (\<exists>r out. \<forall>h lg. Subscribe h c ts lg = (r, lg @ out)) \<and>
   (\<exists>r out. \<forall>h lg. Unsubscribe h c ts lg = (r, lg @ out)) \<and>
   (\<exists>r out. \<forall>h lg. Disconnect h c lg = (r, lg @ out))"
proof -
  have "\<forall>h h' :: Handler. h = h'"
  proof (intro allI)
    fix h h' :: Handler
    show "h = h'" by (cases h; cases h') simp
  qed
  then show ?thesis
    using AuthConnect_pure AuthPublish_pure AuthSubscribe_pure Connect_pure Publish_pure
      Subscribe_pure Unsubscribe_pure Disconnect_pure
    by (intro conjI)
qed

section \<open>The orchestrator\<close>

subsection \<open>Schedules and invariants\<close>

lemma run_invariant:
  assumes step: "\<And>ev s s'. I s \<Longrightarrow> fire ld ev s = Some s' \<Longrightarrow> I s'"
    and "I s" and "run ld evs s = Some s'"
  shows "I s'"
  using assms(2,3)
proof (induction evs arbitrary: s)
  case Nil
  then show ?case by simp
next
  case (Cons ev evs)
  then show ?case by (auto split: option.splits dest: step)
qed

lemma run_snoc:
  "run ld (evs @ [ev]) s = (case run ld evs s of None \<Rightarrow> None | Some s' \<Rightarrow> fire ld ev s')"
  by (induction evs arbitrary: s) (auto split: option.splits)

lemma fire_cfg: "fire ld ev s = Some s' \<Longrightarrow> cfg s' = cfg s"
  by (cases ev)
    (auto simp: main_step_def split: main_pc.splits if_splits prod.splits option.splits
      list.splits tstate.splits)

lemma run_cfg: "run ld evs s = Some s' \<Longrightarrow> cfg s' = cfg s"
  by (rule run_invariant [where I = "\<lambda>x. cfg x = cfg s" and ld = ld and evs = evs and s = s])
    (auto dest: fire_cfg)

lemma first_second_neq:
  "first_proxy c \<noteq> second_proxy c" "first_proxy c \<noteq> SigWatcher" "second_proxy c \<noteq> SigWatcher"
  by (simp_all add: first_proxy_def second_proxy_def)

lemma branch_eq: "branch c = {first_proxy c, second_proxy c}"
  by (auto simp: branch_def first_proxy_def second_proxy_def)

lemma started_simps [simp]:
  "started (s\<lparr>pc := p\<rparr>) = started s"
  "started (s\<lparr>errs := b\<rparr>) = started s"
  "started (s\<lparr>logs := l\<rparr>) = started s"
  "started (s\<lparr>tlsCfg := x\<rparr>) = started s"
  by (simp_all add: started_def)

text \<open>The goroutines that exist are exactly those the statements run so far have started.\<close>

lemma main_step_shape:
  assumes "shape s" and "main_step ld s = Some s'"
  shows "shape s'"
proof (cases "pc s")
  case AtBranch
  with assms show ?thesis
    by (auto simp: main_step_def shape_def expected_started_def
        split: if_splits prod.splits option.splits)
next
  case AtGo1
  with assms show ?thesis
    by (auto simp: main_step_def shape_def expected_started_def started_def split: if_splits)
next
  case AtGo2
  with assms show ?thesis
    by (auto simp: main_step_def shape_def expected_started_def started_def split: if_splits)
next
  case AtGoSignal
  with assms show ?thesis
    by (auto simp: main_step_def shape_def expected_started_def started_def split: if_splits)
next
  case AtRecv
  with assms show ?thesis
    by (auto simp: main_step_def shape_def expected_started_def split: list.splits)
next
  case (AtReport v)
  with assms show ?thesis
    by (auto simp: main_step_def shape_def expected_started_def)
next
  case Exited
  with assms show ?thesis by (simp add: main_step_def)
qed

lemma fire_shape:
  assumes "shape s" and "fire ld ev s = Some s'"
  shows "shape s'"
proof (cases ev)
  case MainStep
  with assms show ?thesis by (simp add: main_step_shape)
next
  case (ListenReturns t v)
  with assms show ?thesis
    by (auto simp: shape_def started_def split: if_splits)
next
  case Interrupt
  with assms show ?thesis
    by (auto simp: shape_def started_def split: if_splits)
next
  case (ChanSend t)
  with assms show ?thesis
    by (auto simp: shape_def started_def split: if_splits tstate.splits option.splits)
qed

lemma shape_init: "shape (init c)"
  by (simp add: shape_def init_def started_def expected_started_def)

lemma run_shape: "run ld evs (init c) = Some s \<Longrightarrow> shape s"
  by (rule run_invariant [where I = shape and ld = ld and evs = evs and s = "init c"])
    (auto intro: fire_shape shape_init)

text \<open>The first three statements of \<open>main\<close> after the loader never block.\<close>

lemma main_step_branch:
  assumes "pc s = AtBranch" and "errs s = []"
  shows "\<exists>s'. main_step ld s = Some s' \<and> pc s' = AtGo1"
proof (cases "ld (caCerts (cfg s)) (serverCert (cfg s)) (serverKey (cfg s))")
  case (Pair t err)
  with assms show ?thesis
    by (cases err) (simp_all add: main_step_def chan_send_def chan_cap_def)
qed

lemma main_step_go1:
  "pc s = AtGo1 \<Longrightarrow> \<exists>s'. main_step ld s = Some s' \<and> pc s' = AtGo2"
  by (simp add: main_step_def)

lemma main_step_go2:
  "pc s = AtGo2 \<Longrightarrow> \<exists>s'. main_step ld s = Some s' \<and> pc s' = AtGoSignal"
  by (simp add: main_step_def)

lemma main_reaches_go:
  "\<exists>s'. run ld [MainStep, MainStep, MainStep] (init c) = Some s' \<and> pc s' = AtGoSignal"
proof -
  have "pc (init c :: 'a state) = AtBranch" and "errs (init c :: 'a state) = []"
    by (simp_all add: init_def)
  then obtain s1 :: "'a state" where 1: "main_step ld (init c) = Some s1" and p1: "pc s1 = AtGo1"
    using main_step_branch by blast
  obtain s2 where 2: "main_step ld s1 = Some s2" and p2: "pc s2 = AtGo2"
    using main_step_go1 [OF p1] by blast
  obtain s3 where 3: "main_step ld s2 = Some s3" and p3: "pc s3 = AtGoSignal"
    using main_step_go2 [OF p2] by blast
  show ?thesis using 1 2 3 p3 by simp
qed

text \<open>The state after the four statements that start the goroutines, in each branch.\<close>

lemma plaintext_run:
  assumes "\<not> clientTLS c"
  shows "run ld [MainStep, MainStep, MainStep, MainStep] (init c) =
           Some \<lparr>cfg = c, pc = AtRecv, tlsCfg = None, errs = [],
                 tasks = (\<lambda>x. NotStarted)
                   (ProxyWS := Running, ProxyMQTT := Running, SigWatcher := Running),
                 logs = [(Info, first_msg c), (Info, second_msg c)]\<rparr>"
  using assms
  by (simp add: init_def main_step_def first_proxy_def second_proxy_def)

lemma tls_failure_run:
  assumes "clientTLS c" and "ld (caCerts c) (serverCert c) (serverKey c) = (t, Some m)"
  shows "run ld [MainStep, MainStep, MainStep, MainStep] (init c) =
           Some \<lparr>cfg = c, pc = AtRecv, tlsCfg = t, errs = [Some m],
                 tasks = (\<lambda>x. NotStarted)
                   (ProxyWSS := Running, ProxyMQTTS := Running, SigWatcher := Running),
                 logs = [(Info, first_msg c), (Info, second_msg c)]\<rparr>"
  using assms
  by (simp add: init_def main_step_def chan_send_def chan_cap_def first_proxy_def
      second_proxy_def)

lemma run_append:
  "run ld (evs @ evs') s = (case run ld evs s of None \<Rightarrow> None | Some s' \<Rightarrow> run ld evs' s')"
  by (induction evs arbitrary: s) (auto split: option.splits)

subsection \<open>Which listeners are started\<close>

text \<open>
  Claim C2. For every configuration and every schedule, the listeners that exist belong
  to one branch: the plaintext pair when the TLS flag is false, the TLS pair when it is
  true. Once \<open>main\<close> is past its two \<open>go\<close> statements they are exactly that pair, and
  \<open>main\<close> always gets there: its first three steps cannot block.
\<close>

theorem exactly_one_branch_started:
  assumes "run ld evs (init c) = Some s"
  shows "listeners_started s \<subseteq> branch c \<and>
         (pc s \<notin> {AtBranch, AtGo1, AtGo2} \<longrightarrow> listeners_started s = branch c) \<and>
         (\<exists>s'. run ld [MainStep, MainStep, MainStep] (init c) = Some s' \<and> pc s' = AtGoSignal)"
proof -
  have c: "cfg s = c" using run_cfg [OF assms] by (simp add: init_def)
  have sh: "started s = expected_started c (pc s)"
    using run_shape [OF assms] c by (simp add: shape_def)
  have 1: "listeners_started s \<subseteq> branch c"
    unfolding listeners_started_def sh branch_eq
    by (cases "pc s") (auto simp: expected_started_def)
  have 2: "pc s \<notin> {AtBranch, AtGo1, AtGo2} \<longrightarrow> listeners_started s = branch c"
    unfolding listeners_started_def sh branch_eq
    using first_second_neq [of c] by (cases "pc s") (auto simp: expected_started_def)
  show ?thesis using 1 2 main_reaches_go by blast
qed

text \<open>The default configuration: after four steps of \<open>main\<close>, WS and MQTT and no other.\<close>

theorem exactly_one_branch_started_witness:
  "(case run loader_ok [MainStep, MainStep, MainStep, MainStep] (init plain_defaults) of
      Some s \<Rightarrow> pc s = AtRecv \<and> listeners_started s = {ProxyWS, ProxyMQTT}
    | None \<Rightarrow> False)"
proof -
  have nt: "\<not> clientTLS plain_defaults" by (simp add: plain_defaults_def)
  obtain s where r: "run loader_ok [MainStep, MainStep, MainStep, MainStep] (init plain_defaults)
      = Some s" and p: "pc s = AtRecv"
    using plaintext_run [OF nt, of loader_ok] by simp
  have "listeners_started s = branch plain_defaults"
    using exactly_one_branch_started [OF r] p by simp
  then show ?thesis using r p nt by (simp add: branch_def)
qed

subsection \<open>After the exit\<close>

lemma fire_after_exit: "pc s = Exited \<Longrightarrow> fire ld ev s = None"
  by (cases ev) (auto simp: main_step_def split: tstate.splits)

subsection \<open>Sends on the channel\<close>

lemma fire_done:
  assumes "shape s" and "fire ld ev s = Some s'"
  shows "(tasks s' t = Done) = (tasks s t = Done \<or> ev = ChanSend t)"
    and "ev = ChanSend t \<Longrightarrow> tasks s t \<noteq> Done"
proof -
  show "(tasks s' t = Done) = (tasks s t = Done \<or> ev = ChanSend t)"
  proof (cases ev)
    case MainStep
    have ns: "x \<notin> started s \<Longrightarrow> tasks s x = NotStarted" for x
      by (simp add: started_def)
    show ?thesis
    proof (cases "pc s")
      case AtGo1
      with assms MainStep ns [of "first_proxy (cfg s)"] show ?thesis
        by (auto simp: main_step_def shape_def expected_started_def split: if_splits)
    next
      case AtGo2
      with assms MainStep ns [of "second_proxy (cfg s)"] first_second_neq [of "cfg s"]
      show ?thesis
        by (auto simp: main_step_def shape_def expected_started_def split: if_splits)
    next
      case AtGoSignal
      with assms MainStep ns [of SigWatcher] first_second_neq [of "cfg s"] show ?thesis
        by (auto simp: main_step_def shape_def expected_started_def split: if_splits)
    next
      case AtBranch
      with assms MainStep show ?thesis
        by (auto simp: main_step_def split: if_splits prod.splits option.splits)
    next
      case AtRecv
      with assms MainStep show ?thesis
        by (auto simp: main_step_def split: list.splits)
    next
      case (AtReport w)
      with assms MainStep show ?thesis by (auto simp: main_step_def)
    next
      case Exited
      with assms MainStep show ?thesis by (simp add: main_step_def)
    qed
  next
    case (ListenReturns t' v)
    with assms show ?thesis by (auto split: if_splits)
  next
    case Interrupt
    with assms show ?thesis by (auto split: if_splits)
  next
    case (ChanSend t')
    with assms show ?thesis
      by (auto split: if_splits tstate.splits option.splits)
  qed
  show "ev = ChanSend t \<Longrightarrow> tasks s t \<noteq> Done"
    using assms(2) by (auto split: tstate.splits)
qed

lemma sends_of_snoc:
  "sends_of t (evs @ [ev]) = sends_of t evs + (if ev = ChanSend t then 1 else 0)"
  by (simp add: sends_of_def)

lemma run_sends:
  "run ld evs (init c) = Some s \<Longrightarrow> sends_of t evs = (if tasks s t = Done then 1 else 0)"
proof (induction evs arbitrary: s rule: rev_induct)
  case Nil
  then show ?case by (auto simp: sends_of_def init_def)
next
  case (snoc ev evs)
  from snoc.prems obtain s0 where r: "run ld evs (init c) = Some s0"
    and f: "fire ld ev s0 = Some s"
    by (auto simp: run_snoc split: option.splits)
  have sh: "shape s0" using r by (rule run_shape)
  have ih: "sends_of t evs = (if tasks s0 t = Done then 1 else 0)"
    using r by (rule snoc.IH)
  show ?case
    using ih fire_done [OF sh f, of t] by (auto simp: sends_of_snoc)
qed

text \<open>Where the value a goroutine holds at its send statement comes from.\<close>

lemma fire_at_send:
  assumes "fire ld ev s = Some s'" and "tasks s' t = AtSend v"
  shows "tasks s t = AtSend v \<or> (ev = ListenReturns t v \<and> t \<noteq> SigWatcher) \<or>
         (ev = Interrupt \<and> t = SigWatcher \<and> v = Some ''interrupt'')"
proof (cases ev)
  case MainStep
  show ?thesis
  proof (cases "pc s")
    case AtBranch
    with assms MainStep show ?thesis
      by (auto simp: main_step_def split: if_splits prod.splits option.splits)
  next
    case AtRecv
    with assms MainStep show ?thesis
      by (auto simp: main_step_def split: list.splits)
  qed (use assms MainStep in \<open>auto simp: main_step_def split: if_splits\<close>)
next
  case (ListenReturns t' v')
  with assms show ?thesis by (auto split: if_splits)
next
  case Interrupt
  with assms show ?thesis by (auto split: if_splits)
next
  case (ChanSend t')
  with assms show ?thesis
    by (auto split: if_splits tstate.splits option.splits)
qed

lemma run_at_send:
  "run ld evs (init c) = Some s \<Longrightarrow> tasks s t = AtSend v \<Longrightarrow>
     (if t = SigWatcher then v = Some ''interrupt'' \<and> Interrupt \<in> set evs
      else ListenReturns t v \<in> set evs)"
proof (induction evs arbitrary: s rule: rev_induct)
  case Nil
  then show ?case by (auto simp: init_def)
next
  case (snoc ev evs)
  from snoc.prems(1) obtain s0 where r: "run ld evs (init c) = Some s0"
    and f: "fire ld ev s0 = Some s"
    by (auto simp: run_snoc split: option.splits)
  from fire_at_send [OF f snoc.prems(2)] show ?case
  proof (elim disjE)
    assume "tasks s0 t = AtSend v"
    from snoc.IH [OF r this] show ?thesis by (auto split: if_splits)
  qed auto
qed

subsection \<open>What one step does to a goroutine\<close>

text \<open>
  A step leaves a goroutine as it is, or starts it (a \<open>go\<close> statement of \<open>main\<close>), or is
  the return of its blocking call, or is its send. There is no other move: a goroutine
  goes through \<open>NotStarted\<close>, \<open>Running\<close>, \<open>AtSend\<close>, \<open>Done\<close> in this order and never back.
\<close>

lemma main_step_task:
  assumes "shape s" and "main_step ld s = Some s'"
  shows "tasks s' t = tasks s t \<or> (tasks s t = NotStarted \<and> tasks s' t = Running)"
proof (cases "pc s")
  case AtBranch
  with assms show ?thesis
    by (auto simp: main_step_def split: if_splits prod.splits option.splits)
next
  case AtGo1
  have "first_proxy (cfg s) \<notin> started s"
    using assms(1) AtGo1 by (simp add: shape_def expected_started_def)
  then have "tasks s (first_proxy (cfg s)) = NotStarted" by (simp add: started_def)
  with assms AtGo1 show ?thesis by (auto simp: main_step_def split: if_splits)
next
  case AtGo2
  have "second_proxy (cfg s) \<notin> started s"
    using assms(1) AtGo2 first_second_neq [of "cfg s"]
    by (simp add: shape_def expected_started_def)
  then have "tasks s (second_proxy (cfg s)) = NotStarted" by (simp add: started_def)
  with assms AtGo2 show ?thesis by (auto simp: main_step_def split: if_splits)
next
  case AtGoSignal
  have "SigWatcher \<notin> started s"
    using assms(1) AtGoSignal first_second_neq [of "cfg s"]
    by (auto simp: shape_def expected_started_def)
  then have "tasks s SigWatcher = NotStarted" by (simp add: started_def)
  with assms AtGoSignal show ?thesis by (auto simp: main_step_def split: if_splits)
next
  case AtRecv
  with assms show ?thesis by (auto simp: main_step_def split: list.splits)
next
  case (AtReport v)
  with assms show ?thesis by (auto simp: main_step_def)
next
  case Exited
  with assms show ?thesis by (simp add: main_step_def)
qed

lemma fire_task:
  assumes "shape s" and "fire ld ev s = Some s'"
  shows "tasks s' t = tasks s t \<or>
         (tasks s t = NotStarted \<and> tasks s' t = Running \<and> ev = MainStep) \<or>
         (tasks s t = Running \<and> t \<noteq> SigWatcher \<and>
            (\<exists>v. ev = ListenReturns t v \<and> tasks s' t = AtSend v)) \<or>
         (tasks s t = Running \<and> t = SigWatcher \<and> ev = Interrupt \<and>
            tasks s' t = AtSend (Some ''interrupt'')) \<or>
         ((\<exists>v. tasks s t = AtSend v) \<and> ev = ChanSend t \<and> tasks s' t = Done)"
proof (cases ev)
  case MainStep
  with assms main_step_task [of s ld s' t] show ?thesis by auto
next
  case (ListenReturns t' v)
  with assms show ?thesis by (auto split: if_splits)
next
  case Interrupt
  with assms show ?thesis by (auto split: if_splits)
next
  case (ChanSend t')
  with assms show ?thesis
    by (auto split: if_splits tstate.splits option.splits)
qed

lemma fire_no_restart:
  assumes "shape s" and "fire ld ev s = Some s'" and "tasks s t \<noteq> NotStarted"
  shows "tasks s' t \<noteq> NotStarted \<and> (tasks s' t = Running \<longrightarrow> tasks s t = Running)"
  using fire_task [OF assms(1,2), of t] assms(3) by auto

text \<open>Once the blocking call has returned, the goroutine is at its send or has sent.\<close>

lemma run_listen_returned:
  "run ld evs (init c) = Some s \<Longrightarrow> ListenReturns t v \<in> set evs \<Longrightarrow>
     tasks s t = AtSend v \<or> tasks s t = Done"
proof (induction evs arbitrary: s rule: rev_induct)
  case Nil
  then show ?case by simp
next
  case (snoc ev evs)
  from snoc.prems(1) obtain s0 where r: "run ld evs (init c) = Some s0"
    and f: "fire ld ev s0 = Some s"
    by (auto simp: run_snoc split: option.splits)
  have sh: "shape s0" using r by (rule run_shape)
  show ?case
  proof (cases "ListenReturns t v \<in> set evs")
    case True
    from snoc.IH [OF r True] fire_task [OF sh f, of t] show ?thesis by auto
  next
    case False
    with snoc.prems(2) have "ev = ListenReturns t v" by simp
    with f show ?thesis by (auto split: if_splits)
  qed
qed

lemma run_interrupted:
  "run ld evs (init c) = Some s \<Longrightarrow> Interrupt \<in> set evs \<Longrightarrow>
     tasks s SigWatcher = AtSend (Some ''interrupt'') \<or> tasks s SigWatcher = Done"
proof (induction evs arbitrary: s rule: rev_induct)
  case Nil
  then show ?case by simp
next
  case (snoc ev evs)
  from snoc.prems(1) obtain s0 where r: "run ld evs (init c) = Some s0"
    and f: "fire ld ev s0 = Some s"
    by (auto simp: run_snoc split: option.splits)
  have sh: "shape s0" using r by (rule run_shape)
  show ?case
  proof (cases "Interrupt \<in> set evs")
    case True
    from snoc.IH [OF r True] fire_task [OF sh f, of SigWatcher] show ?thesis by auto
  next
    case False
    with snoc.prems(2) have "ev = Interrupt" by simp
    with f show ?thesis by (auto split: if_splits)
  qed
qed

subsection \<open>Values sent and values received\<close>

lemma total_sends_snoc:
  "total_sends (evs @ [ev]) =
     total_sends evs + (case ev of ChanSend t \<Rightarrow> 1 | _ \<Rightarrow> 0)"
  by (cases ev) (simp_all add: total_sends_def)

lemma main_step_account:
  assumes "main_step ld s = Some s'"
  shows "length (errs s') + received (pc s') + sent_by_main ld s =
         length (errs s) + received (pc s) + sent_by_main ld s'"
proof (cases "pc s")
  case AtBranch
  show ?thesis
  proof (cases "ld (caCerts (cfg s)) (serverCert (cfg s)) (serverKey (cfg s))")
    case (Pair t err)
    with assms AtBranch show ?thesis
      by (cases err)
        (auto simp: main_step_def received_def sent_by_main_def tls_fails_def chan_send_def
          split: if_splits)
  qed
next
  case AtRecv
  with assms show ?thesis
    by (auto simp: main_step_def received_def sent_by_main_def split: list.splits)
qed (use assms in \<open>auto simp: main_step_def received_def sent_by_main_def\<close>)

lemma fire_account:
  assumes "fire ld ev s = Some s'"
  shows "length (errs s') + received (pc s') + sent_by_main ld s =
         length (errs s) + received (pc s) + sent_by_main ld s' +
         (case ev of ChanSend t \<Rightarrow> 1 | _ \<Rightarrow> 0)"
proof (cases ev)
  case MainStep
  with assms main_step_account [of ld s s'] show ?thesis by simp
next
  case (ListenReturns t v)
  with assms show ?thesis by (auto simp: sent_by_main_def split: if_splits)
next
  case Interrupt
  with assms show ?thesis by (auto simp: sent_by_main_def split: if_splits)
next
  case (ChanSend t)
  with assms show ?thesis
    by (auto simp: sent_by_main_def chan_send_def split: if_splits tstate.splits)
qed

lemma run_account:
  "run ld evs (init c) = Some s \<Longrightarrow>
     total_sends evs + sent_by_main ld s = length (errs s) + received (pc s)"
proof (induction evs arbitrary: s rule: rev_induct)
  case Nil
  then show ?case
    by (auto simp: total_sends_def init_def sent_by_main_def received_def)
next
  case (snoc ev evs)
  from snoc.prems obtain s0 where r: "run ld evs (init c) = Some s0"
    and f: "fire ld ev s0 = Some s"
    by (auto simp: run_snoc split: option.splits)
  from snoc.IH [OF r] fire_account [OF f] show ?case
    by (simp add: total_sends_snoc)
qed

lemma origin_snoc: "origin ld c evs v \<Longrightarrow> origin ld c (evs @ [ev]) v"
  by (auto simp: origin_def)

lemma origin_of_task:
  assumes "run ld evs (init c) = Some s" and "tasks s t = AtSend v"
  shows "origin ld c evs v"
  using run_at_send [OF assms] by (auto simp: origin_def split: if_splits)

lemma main_step_errs:
  assumes "main_step ld s = Some s'"
  shows "(pc s = AtBranch \<and> pc s' = AtGo1 \<and>
            (errs s' = errs s \<or>
             (\<exists>m. errs s' = errs s @ [Some m] \<and> clientTLS (cfg s) \<and>
                snd (ld (caCerts (cfg s)) (serverCert (cfg s)) (serverKey (cfg s))) = Some m))) \<or>
         (pc s = AtRecv \<and> (\<exists>v. errs s = v # errs s' \<and> pc s' = AtReport v)) \<or>
         (pc s \<noteq> AtBranch \<and> pc s \<noteq> AtRecv \<and> errs s' = errs s \<and> (\<forall>v. pc s' \<noteq> AtReport v))"
proof (cases "pc s")
  case AtBranch
  show ?thesis
  proof (cases "ld (caCerts (cfg s)) (serverCert (cfg s)) (serverKey (cfg s))")
    case (Pair t err)
    with assms AtBranch show ?thesis
      by (cases err) (auto simp: main_step_def chan_send_def split: if_splits)
  qed
next
  case AtRecv
  with assms show ?thesis by (auto simp: main_step_def split: list.splits)
qed (use assms in \<open>auto simp: main_step_def\<close>)

lemma run_origin:
  "run ld evs (init c) = Some s \<Longrightarrow>
     (\<forall>v \<in> set (errs s). origin ld c evs v) \<and> (\<forall>v. pc s = AtReport v \<longrightarrow> origin ld c evs v)"
proof (induction evs arbitrary: s rule: rev_induct)
  case Nil
  then show ?case by (auto simp: init_def)
next
  case (snoc ev evs)
  from snoc.prems obtain s0 where r: "run ld evs (init c) = Some s0"
    and f: "fire ld ev s0 = Some s"
    by (auto simp: run_snoc split: option.splits)
  have c: "cfg s0 = c" using run_cfg [OF r] by (simp add: init_def)
  from snoc.IH [OF r]
  have ih1: "\<And>v. v \<in> set (errs s0) \<Longrightarrow> origin ld c (evs @ [ev]) v"
    and ih2: "\<And>v. pc s0 = AtReport v \<Longrightarrow> origin ld c (evs @ [ev]) v"
    by (auto intro: origin_snoc)
  show ?case
  proof (cases ev)
    case MainStep
    with f have m: "main_step ld s0 = Some s" by simp
    from main_step_errs [OF m] consider
      (same) "errs s = errs s0" "\<forall>v. pc s \<noteq> AtReport v"
      | (loader) m' where "pc s = AtGo1" "errs s = errs s0 @ [Some m']" "clientTLS (cfg s0)"
          "snd (ld (caCerts (cfg s0)) (serverCert (cfg s0)) (serverKey (cfg s0))) = Some m'"
      | (recv) v where "errs s0 = v # errs s" "pc s = AtReport v"
      by fastforce
    then show ?thesis
    proof cases
      case same
      with ih1 show ?thesis by auto
    next
      case loader
      have "origin ld c (evs @ [ev]) (Some m')"
        using loader(3,4) c by (simp add: origin_def)
      with loader(1,2) ih1 show ?thesis by auto
    next
      case recv
      with ih1 show ?thesis by auto
    qed
  next
    case (ListenReturns t v)
    with f have "errs s = errs s0" and "pc s = pc s0" by (auto split: if_splits)
    with ih1 ih2 show ?thesis by auto
  next
    case Interrupt
    with f have "errs s = errs s0" and "pc s = pc s0" by (auto split: if_splits)
    with ih1 ih2 show ?thesis by auto
  next
    case (ChanSend t)
    with f obtain v where at: "tasks s0 t = AtSend v" and e: "errs s = errs s0 @ [v]"
      and p: "pc s = pc s0"
      by (auto simp: chan_send_def split: if_splits tstate.splits)
    have "origin ld c (evs @ [ev]) v"
      using origin_of_task [OF r at] by (rule origin_snoc)
    with e p ih1 ih2 show ?thesis by auto
  qed
qed

lemma origin_without_tls_failure:
  assumes "origin ld c evs v" and "\<not> tls_fails ld c"
  shows "(\<exists>t. t \<noteq> SigWatcher \<and> ListenReturns t v \<in> set evs) \<or>
         (v = Some ''interrupt'' \<and> Interrupt \<in> set evs)"
  using assms by (auto simp: origin_def tls_fails_def)

subsection \<open>Room in the channel\<close>

lemma pending_simps [simp]:
  "pending (s\<lparr>pc := p\<rparr>) = pending s"
  "pending (s\<lparr>errs := b\<rparr>) = pending s"
  "pending (s\<lparr>logs := l\<rparr>) = pending s"
  "pending (s\<lparr>tlsCfg := x\<rparr>) = pending s"
  by (simp_all add: pending_def)

lemma pending_upd:
  "tasks s' = (tasks s)(t := ts) \<Longrightarrow> pending s' + weight (tasks s t) = pending s + weight ts"
  by (cases t) (simp_all add: pending_def all_tasks_def)

lemma pending_pos: "weight (tasks s t) \<le> pending s"
  by (cases t) (simp_all add: pending_def all_tasks_def)

lemma not_started_weight: "t \<notin> started s \<Longrightarrow> weight (tasks s t) = 0"
  by (simp add: started_def weight_def)

lemma main_step_budget:
  assumes "shape s" and "budget ld s" and "main_step ld s = Some s'"
  shows "budget ld s'"
proof (cases "pc s")
  case AtBranch
  show ?thesis
  proof (cases "ld (caCerts (cfg s)) (serverCert (cfg s)) (serverKey (cfg s))")
    case (Pair t err)
    with assms AtBranch show ?thesis
      by (cases err)
        (auto simp: main_step_def budget_def to_start_def received_def sent_by_main_def
          tls_fails_def chan_send_def split: if_splits)
  qed
next
  case AtGo1
  have "first_proxy (cfg s) \<notin> started s"
    using assms(1) AtGo1 by (simp add: shape_def expected_started_def)
  then have w: "weight (tasks s (first_proxy (cfg s))) = 0" by (rule not_started_weight)
  have s': "tasks s' = (tasks s)(first_proxy (cfg s) := Running)" "errs s' = errs s"
    "pc s' = AtGo2" "cfg s' = cfg s"
    using assms(3) AtGo1 by (auto simp: main_step_def)
  have "pending s' = pending s + 1"
    using pending_upd [OF s'(1)] w by (simp add: weight_def)
  then show ?thesis
    using assms(2) AtGo1
    by (simp add: budget_def to_start_def received_def sent_by_main_def s')
next
  case AtGo2
  have "second_proxy (cfg s) \<notin> started s"
    using assms(1) AtGo2 first_second_neq [of "cfg s"]
    by (simp add: shape_def expected_started_def)
  then have w: "weight (tasks s (second_proxy (cfg s))) = 0" by (rule not_started_weight)
  have s': "tasks s' = (tasks s)(second_proxy (cfg s) := Running)" "errs s' = errs s"
    "pc s' = AtGoSignal" "cfg s' = cfg s"
    using assms(3) AtGo2 by (auto simp: main_step_def)
  have "pending s' = pending s + 1"
    using pending_upd [OF s'(1)] w by (simp add: weight_def)
  then show ?thesis
    using assms(2) AtGo2
    by (simp add: budget_def to_start_def received_def sent_by_main_def s')
next
  case AtGoSignal
  have "SigWatcher \<notin> started s"
    using assms(1) AtGoSignal first_second_neq [of "cfg s"]
    by (auto simp: shape_def expected_started_def)
  then have w: "weight (tasks s SigWatcher) = 0" by (rule not_started_weight)
  have s': "tasks s' = (tasks s)(SigWatcher := Running)" "errs s' = errs s"
    "pc s' = AtRecv" "cfg s' = cfg s"
    using assms(3) AtGoSignal by (auto simp: main_step_def)
  have "pending s' = pending s + 1"
    using pending_upd [OF s'(1)] w by (simp add: weight_def)
  then show ?thesis
    using assms(2) AtGoSignal
    by (simp add: budget_def to_start_def received_def sent_by_main_def s')
next
  case AtRecv
  with assms show ?thesis
    by (auto simp: main_step_def budget_def to_start_def received_def sent_by_main_def
        split: list.splits)
next
  case (AtReport v)
  with assms show ?thesis
    by (auto simp: main_step_def budget_def to_start_def received_def sent_by_main_def)
next
  case Exited
  with assms show ?thesis by (simp add: main_step_def)
qed

lemma fire_budget:
  assumes "shape s" and "budget ld s" and "fire ld ev s = Some s'"
  shows "budget ld s'"
proof (cases ev)
  case MainStep
  with assms show ?thesis by (simp add: main_step_budget)
next
  case (ListenReturns t v)
  with assms have run: "tasks s t = Running"
    and s': "tasks s' = (tasks s)(t := AtSend v)" "errs s' = errs s" "pc s' = pc s"
      "cfg s' = cfg s"
    by (auto split: if_splits)
  have "pending s' = pending s"
    using pending_upd [OF s'(1)] run by (simp add: weight_def)
  then show ?thesis using assms(2) by (simp add: budget_def sent_by_main_def s')
next
  case Interrupt
  with assms have run: "tasks s SigWatcher = Running"
    and s': "tasks s' = (tasks s)(SigWatcher := AtSend (Some ''interrupt''))" "errs s' = errs s"
      "pc s' = pc s" "cfg s' = cfg s"
    by (auto split: if_splits)
  have "pending s' = pending s"
    using pending_upd [OF s'(1)] run by (simp add: weight_def)
  then show ?thesis using assms(2) by (simp add: budget_def sent_by_main_def s')
next
  case (ChanSend t)
  with assms obtain v where at: "tasks s t = AtSend v"
    and s': "tasks s' = (tasks s)(t := Done)" "errs s' = errs s @ [v]" "pc s' = pc s"
      "cfg s' = cfg s"
    by (auto simp: chan_send_def split: if_splits tstate.splits)
  have "pending s' + 1 = pending s"
    using pending_upd [OF s'(1)] at by (simp add: weight_def)
  then show ?thesis using assms(2) by (simp add: budget_def sent_by_main_def s')
qed

lemma run_budget:
  assumes "run ld evs (init c) = Some s"
  shows "budget ld s"
proof -
  have "shape s \<and> budget ld s"
  proof (rule run_invariant [where I = "\<lambda>x. shape x \<and> budget ld x" and ld = ld and evs = evs
        and s = "init c"])
    show "shape (init c) \<and> budget ld (init c)"
      using shape_init [of c]
      by (simp add: budget_def init_def pending_def all_tasks_def weight_def to_start_def
          received_def sent_by_main_def)
    show "run ld evs (init c) = Some s" by (rule assms)
  qed (auto intro: fire_shape fire_budget)
  then show ?thesis by simp
qed

text \<open>
  In the plaintext branch, and in the TLS branch when the loader returns no error, at
  most three values are ever sent, by three goroutines, and capacity 3 is enough: no
  goroutine ever stands at its send with the channel full.
\<close>

lemma no_blocked_writer_unless_tls_fails:
  assumes "run ld evs (init c) = Some s" and "\<not> tls_fails ld c"
  shows "\<not> blocked_writer s t"
proof
  assume b: "blocked_writer s t"
  then obtain v where at: "tasks s t = AtSend v" and full: "chan_send v (errs s) = None"
    and ne: "pc s \<noteq> Exited"
    by (auto simp: blocked_writer_def split: tstate.splits)
  have c: "cfg s = c" using run_cfg [OF assms(1)] by (simp add: init_def)
  have "1 \<le> pending s" using pending_pos [of s t] at by (simp add: weight_def)
  moreover have "length (errs s) + pending s \<le> 3"
    using run_budget [OF assms(1)] assms(2) c by (simp add: budget_def sent_by_main_def)
  ultimately have "length (errs s) < chan_cap" by (simp add: chan_cap_def)
  with full show False by (simp add: chan_send_def)
qed

subsection \<open>The wait of the main goroutine\<close>

text \<open>
  Claim C4, as amended. In every schedule: standing at its receive, \<open>main\<close> cannot move
  while the channel is empty; when the channel holds a value it takes exactly the first
  one and leaves the rest; the value it holds is the TLS loader's error, or the value a
  listen call returned, or the interrupt (one of the last two when the loader did not
  fail); it logs that value as the reason of the termination and returns, and then
  nothing fires. Over the whole schedule the values sent are those still in the channel
  and the one value, at most, that \<open>main\<close> has taken. No step starts again a goroutine
  that has been started.
\<close>

theorem main_consumes_one_outcome:
  assumes "run ld evs (init c) = Some s"
  shows "(pc s = AtRecv \<and> errs s = [] \<longrightarrow> fire ld MainStep s = None) \<and>
         (\<forall>v buf. pc s = AtRecv \<and> errs s = v # buf \<longrightarrow>
            fire ld MainStep s = Some (s\<lparr>errs := buf, pc := AtReport v\<rparr>)) \<and>
         (\<forall>v. pc s = AtReport v \<longrightarrow>
            origin ld c evs v \<and>
            (\<not> tls_fails ld c \<longrightarrow>
               (\<exists>t. t \<noteq> SigWatcher \<and> ListenReturns t v \<in> set evs) \<or>
               (v = Some ''interrupt'' \<and> Interrupt \<in> set evs)) \<and>
            fire ld MainStep s =
              Some (s\<lparr>logs := logs s @ [(Error, ''mProxy terminated: '' @ fmt_error v)],
                      pc := Exited\<rparr>)) \<and>
         (pc s = Exited \<longrightarrow> (\<forall>ev. fire ld ev s = None)) \<and>
         total_sends evs + sent_by_main ld s = length (errs s) + received (pc s) \<and>
         received (pc s) \<le> 1 \<and>
         (\<forall>ev s' t. fire ld ev s = Some s' \<and> tasks s t \<noteq> NotStarted \<longrightarrow>
            tasks s' t \<noteq> NotStarted \<and> (tasks s' t = Running \<longrightarrow> tasks s t = Running))"
proof -
  have 1: "pc s = AtRecv \<and> errs s = [] \<longrightarrow> fire ld MainStep s = None"
    by (simp add: main_step_def)
  have 2: "\<forall>v buf. pc s = AtRecv \<and> errs s = v # buf \<longrightarrow>
            fire ld MainStep s = Some (s\<lparr>errs := buf, pc := AtReport v\<rparr>)"
    by (simp add: main_step_def)
  have 3: "\<forall>v. pc s = AtReport v \<longrightarrow>
            origin ld c evs v \<and>
            (\<not> tls_fails ld c \<longrightarrow>
               (\<exists>t. t \<noteq> SigWatcher \<and> ListenReturns t v \<in> set evs) \<or>
               (v = Some ''interrupt'' \<and> Interrupt \<in> set evs)) \<and>
            fire ld MainStep s =
              Some (s\<lparr>logs := logs s @ [(Error, ''mProxy terminated: '' @ fmt_error v)],
                      pc := Exited\<rparr>)"
  proof (intro allI impI)
    fix v assume p: "pc s = AtReport v"
    have o: "origin ld c evs v" using run_origin [OF assms] p by blast
    have "fire ld MainStep s =
            Some (s\<lparr>logs := logs s @ [(Error, ''mProxy terminated: '' @ fmt_error v)],
                    pc := Exited\<rparr>)"
      using p by (simp add: main_step_def)
    with o origin_without_tls_failure [OF o]
    show "origin ld c evs v \<and>
            (\<not> tls_fails ld c \<longrightarrow>
               (\<exists>t. t \<noteq> SigWatcher \<and> ListenReturns t v \<in> set evs) \<or>
               (v = Some ''interrupt'' \<and> Interrupt \<in> set evs)) \<and>
            fire ld MainStep s =
              Some (s\<lparr>logs := logs s @ [(Error, ''mProxy terminated: '' @ fmt_error v)],
                      pc := Exited\<rparr>)"
      by blast
  qed
  have 4: "pc s = Exited \<longrightarrow> (\<forall>ev. fire ld ev s = None)"
    by (simp add: fire_after_exit)
  have 5: "total_sends evs + sent_by_main ld s = length (errs s) + received (pc s)"
    using assms by (rule run_account)
  have 6: "received (pc s) \<le> 1"
    by (cases "pc s") (simp_all add: received_def)
  have 7: "\<forall>ev s' t. fire ld ev s = Some s' \<and> tasks s t \<noteq> NotStarted \<longrightarrow>
            tasks s' t \<noteq> NotStarted \<and> (tasks s' t = Running \<longrightarrow> tasks s t = Running)"
    using fire_no_restart [OF run_shape [OF assms]] by blast
  show ?thesis using 1 2 3 4 5 6 7 by (intro conjI)
qed

text \<open>
  The default configuration, interrupted: \<open>main\<close> is blocked until the watcher has sent,
  then receives the interrupt, reports it and exits; after that the listen call of the
  WS proxy cannot return any more.
\<close>

theorem main_consumes_one_outcome_witness:
  "(case run loader_ok [MainStep, MainStep, MainStep, MainStep] (init plain_defaults) of
      Some s \<Rightarrow> pc s = AtRecv \<and> fire loader_ok MainStep s = None
    | None \<Rightarrow> False) \<and>
   (case run loader_ok
           [MainStep, MainStep, MainStep, MainStep, Interrupt, ChanSend SigWatcher, MainStep]
           (init plain_defaults) of
      Some s \<Rightarrow>
        pc s = AtReport (Some ''interrupt'') \<and> errs s = [] \<and>
        (case fire loader_ok MainStep s of
           Some s' \<Rightarrow>
             pc s' = Exited \<and>
             logs s' = logs s @ [(Error, ''mProxy terminated: interrupt'')] \<and>
             fire loader_ok (ListenReturns ProxyWS None) s' = None
         | None \<Rightarrow> False)
    | None \<Rightarrow> False)"
proof -
  have nt: "\<not> clientTLS plain_defaults" by (simp add: plain_defaults_def)
  note r4 = plaintext_run [OF nt, of loader_ok]
  obtain s where r: "run loader_ok [MainStep, MainStep, MainStep, MainStep] (init plain_defaults)
      = Some s" and p: "pc s = AtRecv" and e: "errs s = []"
    using r4 by simp
  have a: "fire loader_ok MainStep s = None"
    using main_consumes_one_outcome [OF r] p e by simp
  obtain u where ru: "run loader_ok
        ([MainStep, MainStep, MainStep, MainStep] @ [Interrupt, ChanSend SigWatcher, MainStep])
        (init plain_defaults) = Some u"
    and pu: "pc u = AtReport (Some ''interrupt'')" and eu: "errs u = []"
    unfolding run_append r4 by (simp add: chan_send_def chan_cap_def main_step_def)
  have f: "fire loader_ok MainStep u =
      Some (u\<lparr>logs := logs u @ [(Error, ''mProxy terminated: '' @ fmt_error (Some ''interrupt''))],
              pc := Exited\<rparr>)"
    using main_consumes_one_outcome [OF ru] pu by blast
  have g: "fire loader_ok (ListenReturns ProxyWS None)
      (u\<lparr>logs := logs u @ [(Error, ''mProxy terminated: '' @ fmt_error (Some ''interrupt''))],
         pc := Exited\<rparr>) = None"
    by (rule fire_after_exit) simp
  show ?thesis
    using r p a ru pu eu f g by (simp add: fmt_error_def)
qed

text \<open>
  Claim C4 as stated fails: TLS mode on and the loader failing, \<open>main\<close> finds its own
  loader error in the channel, does not wait, and reports it and exits while no listen
  call has returned and no signal has arrived (the three goroutines are still running).
\<close>

theorem main_reports_loader_error:
  "(case process loader_fails
          [envClientTLS \<mapsto> ''true'', envServerKey \<mapsto> ''/no/such.key'']
          ([MainStep, MainStep, MainStep, MainStep] @ [MainStep, MainStep]) of
      Inr (Some s) \<Rightarrow>
        pc s = Exited \<and> errs s = [] \<and>
        last (logs s) =
          (Error, ''mProxy terminated: open /no/such.key: no such file or directory'') \<and>
        tasks s ProxyWSS = Running \<and> tasks s ProxyMQTTS = Running \<and>
        tasks s SigWatcher = Running
    | _ \<Rightarrow> False)"
proof -
  have "run loader_fails [MainStep, MainStep, MainStep, MainStep]
          (init (plain_defaults\<lparr>clientTLS := True, serverKey := ''/no/such.key''\<rparr>)) =
        Some \<lparr>cfg = plain_defaults\<lparr>clientTLS := True, serverKey := ''/no/such.key''\<rparr>,
              pc = AtRecv, tlsCfg = None,
              errs = [Some ''open /no/such.key: no such file or directory''],
              tasks = (\<lambda>x. NotStarted)
                (ProxyWSS := Running, ProxyMQTTS := Running, SigWatcher := Running),
              logs = [(Info, first_msg (plain_defaults\<lparr>clientTLS := True, serverKey := ''/no/such.key''\<rparr>)),
                      (Info, second_msg (plain_defaults\<lparr>clientTLS := True, serverKey := ''/no/such.key''\<rparr>))]\<rparr>"
    by (rule tls_failure_run) (simp_all add: loader_fails_def)
  then show ?thesis
    unfolding process_def loadConfig_tls_true run_append
    by (simp add: main_step_def fmt_error_def)
qed

subsection \<open>Each goroutine sends once\<close>

text \<open>
  A goroutine at its send can always perform it: at once when the channel has room, and
  otherwise (which needs four values, so only after a loader failure) as soon as \<open>main\<close>
  has received.
\<close>

lemma send_can_complete:
  assumes "run ld evs (init c) = Some s" and "tasks s t = AtSend v" and "pc s \<noteq> Exited"
  shows "\<exists>s'. (fire ld (ChanSend t) s = Some s' \<or> run ld [MainStep, ChanSend t] s = Some s') \<and>
              tasks s' t = Done \<and> errs s' \<noteq> [] \<and> last (errs s') = v"
proof (cases "length (errs s) < chan_cap")
  case True
  with assms(2,3) have "fire ld (ChanSend t) s =
      Some (s\<lparr>errs := errs s @ [v], tasks := (tasks s)(t := Done)\<rparr>)"
    by (simp add: chan_send_def)
  then show ?thesis by auto
next
  case False
  have "1 \<le> pending s" using pending_pos [of s t] assms(2) by (simp add: weight_def)
  moreover have "length (errs s) + pending s + to_start (pc s) + received (pc s) \<le> 4"
    using run_budget [OF assms(1)] by (simp add: budget_def sent_by_main_def split: if_splits)
  ultimately have len: "length (errs s) = 3" and z: "to_start (pc s) = 0" "received (pc s) = 0"
    using False by (simp_all add: chan_cap_def)
  have p: "pc s = AtRecv"
    using z by (cases "pc s") (simp_all add: to_start_def received_def)
  from len obtain w buf where e: "errs s = w # buf" and lb: "length buf = 2"
    by (cases "errs s") auto
  have m: "fire ld MainStep s = Some (s\<lparr>errs := buf, pc := AtReport w\<rparr>)"
    using p e by (simp add: main_step_def)
  have "fire ld (ChanSend t) (s\<lparr>errs := buf, pc := AtReport w\<rparr>) =
      Some (s\<lparr>errs := buf, pc := AtReport w\<rparr>
              \<lparr>errs := buf @ [v], tasks := (tasks s)(t := Done)\<rparr>)"
    using assms(2) lb by (simp add: chan_send_def chan_cap_def)
  with m have "run ld [MainStep, ChanSend t] s =
      Some (s\<lparr>errs := buf, pc := AtReport w\<rparr>
              \<lparr>errs := buf @ [v], tasks := (tasks s)(t := Done)\<rparr>)"
    by simp
  then show ?thesis by auto
qed

text \<open>
  Claim C5. In every schedule each goroutine (the four proxy functions, the signal
  watcher) sends on the channel at most once, and it has sent exactly when it has
  returned. When the listen call of a running proxy returns a value, the proxy stands at
  its send holding that value, and likewise the watcher with the description of the
  signal; from then on it is at its send or has sent. At its send a goroutine holds the
  value its listen call returned (the watcher: the signal's description), the send can
  always be performed while the process lives, and it appends exactly that value and is
  the last thing the goroutine does.
\<close>

theorem at_most_one_send_per_task:
  assumes "run ld evs (init c) = Some s"
  shows "sends_of t evs \<le> 1 \<and>
         (sends_of t evs = 1) = (tasks s t = Done) \<and>
         (\<forall>v. tasks s t = Running \<and> t \<noteq> SigWatcher \<and> pc s \<noteq> Exited \<longrightarrow>
            fire ld (ListenReturns t v) s = Some (s\<lparr>tasks := (tasks s)(t := AtSend v)\<rparr>)) \<and>
         (tasks s SigWatcher = Running \<and> pc s \<noteq> Exited \<longrightarrow>
            fire ld Interrupt s =
              Some (s\<lparr>tasks := (tasks s)(SigWatcher := AtSend (Some ''interrupt''))\<rparr>)) \<and>
         (\<forall>v. ListenReturns t v \<in> set evs \<longrightarrow> tasks s t = AtSend v \<or> tasks s t = Done) \<and>
         (Interrupt \<in> set evs \<longrightarrow>
            tasks s SigWatcher = AtSend (Some ''interrupt'') \<or> tasks s SigWatcher = Done) \<and>
         (\<forall>v. tasks s t = AtSend v \<longrightarrow>
            (if t = SigWatcher then v = Some ''interrupt'' \<and> Interrupt \<in> set evs
             else ListenReturns t v \<in> set evs)) \<and>
         (\<forall>v. tasks s t = AtSend v \<and> pc s \<noteq> Exited \<longrightarrow>
            (\<exists>s'. (fire ld (ChanSend t) s = Some s' \<or>
                   run ld [MainStep, ChanSend t] s = Some s') \<and>
                  tasks s' t = Done \<and> errs s' \<noteq> [] \<and> last (errs s') = v)) \<and>
         (\<forall>s'. fire ld (ChanSend t) s = Some s' \<longrightarrow>
            (\<exists>v. tasks s t = AtSend v \<and> errs s' = errs s @ [v] \<and> tasks s' t = Done))"
proof -
  have 1: "sends_of t evs = (if tasks s t = Done then 1 else 0)"
    using assms by (rule run_sends)
  then have le: "sends_of t evs \<le> 1" and iff: "(sends_of t evs = 1) = (tasks s t = Done)"
    by simp_all
  have 2: "\<forall>v. tasks s t = Running \<and> t \<noteq> SigWatcher \<and> pc s \<noteq> Exited \<longrightarrow>
            fire ld (ListenReturns t v) s = Some (s\<lparr>tasks := (tasks s)(t := AtSend v)\<rparr>)"
    by simp
  have 3: "tasks s SigWatcher = Running \<and> pc s \<noteq> Exited \<longrightarrow>
            fire ld Interrupt s =
              Some (s\<lparr>tasks := (tasks s)(SigWatcher := AtSend (Some ''interrupt''))\<rparr>)"
    by simp
  have 4: "\<forall>v. ListenReturns t v \<in> set evs \<longrightarrow> tasks s t = AtSend v \<or> tasks s t = Done"
    using run_listen_returned [OF assms] by blast
  have 5: "Interrupt \<in> set evs \<longrightarrow>
            tasks s SigWatcher = AtSend (Some ''interrupt'') \<or> tasks s SigWatcher = Done"
    using run_interrupted [OF assms] by blast
  have 6: "\<forall>v. tasks s t = AtSend v \<longrightarrow>
            (if t = SigWatcher then v = Some ''interrupt'' \<and> Interrupt \<in> set evs
             else ListenReturns t v \<in> set evs)"
    using run_at_send [OF assms] by blast
  have 7: "\<forall>v. tasks s t = AtSend v \<and> pc s \<noteq> Exited \<longrightarrow>
            (\<exists>s'. (fire ld (ChanSend t) s = Some s' \<or>
                   run ld [MainStep, ChanSend t] s = Some s') \<and>
                  tasks s' t = Done \<and> errs s' \<noteq> [] \<and> last (errs s') = v)"
    using send_can_complete [OF assms] by blast
  have 8: "\<forall>s'. fire ld (ChanSend t) s = Some s' \<longrightarrow>
            (\<exists>v. tasks s t = AtSend v \<and> errs s' = errs s @ [v] \<and> tasks s' t = Done)"
    by (auto simp: chan_send_def split: tstate.splits if_splits option.splits)
  show ?thesis using le iff 2 3 4 5 6 7 8 by (intro conjI)
qed

text \<open>
  The default configuration, the WS listener failing to bind: its listen call returns
  the error, the proxy sends it, once, and the other goroutines send nothing.
\<close>

theorem at_most_one_send_per_task_witness:
  "(case run loader_ok
          ([MainStep, MainStep, MainStep, MainStep] @
           [ListenReturns ProxyWS (Some ''listen tcp :8083: bind: address already in use'')])
          (init plain_defaults) of
      Some s \<Rightarrow>
        tasks s ProxyWS = AtSend (Some ''listen tcp :8083: bind: address already in use'') \<and>
        (case fire loader_ok (ChanSend ProxyWS) s of
           Some s' \<Rightarrow>
             tasks s' ProxyWS = Done \<and>
             errs s' = [Some ''listen tcp :8083: bind: address already in use'']
         | None \<Rightarrow> False)
    | None \<Rightarrow> False) \<and>
   (case run loader_ok
          ([MainStep, MainStep, MainStep, MainStep] @
           [ListenReturns ProxyWS (Some ''listen tcp :8083: bind: address already in use''),
            ChanSend ProxyWS])
          (init plain_defaults) of
      Some s \<Rightarrow>
        tasks s ProxyWS = Done \<and>
        sends_of ProxyWS
          ([MainStep, MainStep, MainStep, MainStep] @
           [ListenReturns ProxyWS (Some ''listen tcp :8083: bind: address already in use''),
            ChanSend ProxyWS]) = 1 \<and>
        sends_of SigWatcher
          ([MainStep, MainStep, MainStep, MainStep] @
           [ListenReturns ProxyWS (Some ''listen tcp :8083: bind: address already in use''),
            ChanSend ProxyWS]) \<le> 1
    | None \<Rightarrow> False)"
proof -
  have nt: "\<not> clientTLS plain_defaults" by (simp add: plain_defaults_def)
  note r4 = plaintext_run [OF nt, of loader_ok]
  obtain s0 where r0: "run loader_ok
        ([MainStep, MainStep, MainStep, MainStep] @
         [ListenReturns ProxyWS (Some ''listen tcp :8083: bind: address already in use'')])
        (init plain_defaults) = Some s0"
    and e0: "errs s0 = []" and p0: "pc s0 = AtRecv"
    unfolding run_append r4 by simp
  have in0: "ListenReturns ProxyWS (Some ''listen tcp :8083: bind: address already in use'')
      \<in> set ([MainStep, MainStep, MainStep, MainStep] @
         [ListenReturns ProxyWS (Some ''listen tcp :8083: bind: address already in use'')])"
    by simp
  have nd: "tasks s0 ProxyWS \<noteq> Done"
    using at_most_one_send_per_task [OF r0, of ProxyWS] by (simp add: sends_of_def)
  have t0: "tasks s0 ProxyWS = AtSend (Some ''listen tcp :8083: bind: address already in use'')"
    using at_most_one_send_per_task [OF r0, of ProxyWS] in0 nd by blast
  have f0: "fire loader_ok (ChanSend ProxyWS) s0 =
      Some (s0\<lparr>errs := [Some ''listen tcp :8083: bind: address already in use''],
              tasks := (tasks s0)(ProxyWS := Done)\<rparr>)"
    using t0 e0 p0 by (simp add: chan_send_def chan_cap_def)
  obtain s where r: "run loader_ok
        ([MainStep, MainStep, MainStep, MainStep] @
         [ListenReturns ProxyWS (Some ''listen tcp :8083: bind: address already in use''),
          ChanSend ProxyWS])
        (init plain_defaults) = Some s"
    and d: "tasks s ProxyWS = Done"
    unfolding run_append r4 by (simp add: chan_send_def chan_cap_def)
  have a: "sends_of ProxyWS
          ([MainStep, MainStep, MainStep, MainStep] @
           [ListenReturns ProxyWS (Some ''listen tcp :8083: bind: address already in use''),
            ChanSend ProxyWS]) = 1"
    using at_most_one_send_per_task [OF r, of ProxyWS] d by simp
  have b: "sends_of SigWatcher
          ([MainStep, MainStep, MainStep, MainStep] @
           [ListenReturns ProxyWS (Some ''listen tcp :8083: bind: address already in use''),
            ChanSend ProxyWS]) \<le> 1"
    using at_most_one_send_per_task [OF r, of SigWatcher] by simp
  have "(case run loader_ok
          ([MainStep, MainStep, MainStep, MainStep] @
           [ListenReturns ProxyWS (Some ''listen tcp :8083: bind: address already in use'')])
          (init plain_defaults) of
      Some s \<Rightarrow>
        tasks s ProxyWS = AtSend (Some ''listen tcp :8083: bind: address already in use'') \<and>
        (case fire loader_ok (ChanSend ProxyWS) s of
           Some s' \<Rightarrow>
             tasks s' ProxyWS = Done \<and>
             errs s' = [Some ''listen tcp :8083: bind: address already in use'']
         | None \<Rightarrow> False)
    | None \<Rightarrow> False)"
    unfolding r0 using t0 f0 by simp
  moreover have "(case run loader_ok
          ([MainStep, MainStep, MainStep, MainStep] @
           [ListenReturns ProxyWS (Some ''listen tcp :8083: bind: address already in use''),
            ChanSend ProxyWS])
          (init plain_defaults) of
      Some s \<Rightarrow>
        tasks s ProxyWS = Done \<and>
        sends_of ProxyWS
          ([MainStep, MainStep, MainStep, MainStep] @
           [ListenReturns ProxyWS (Some ''listen tcp :8083: bind: address already in use''),
            ChanSend ProxyWS]) = 1 \<and>
        sends_of SigWatcher
          ([MainStep, MainStep, MainStep, MainStep] @
           [ListenReturns ProxyWS (Some ''listen tcp :8083: bind: address already in use''),
            ChanSend ProxyWS]) \<le> 1
    | None \<Rightarrow> False)"
    unfolding r using d a b by simp
  ultimately show ?thesis by (rule conjI)
qed

subsection \<open>When the TLS material fails to load\<close>

text \<open>
  Claim C1, evaluated on the code. TLS mode is on and the loader fails on the key file:
  \<open>main\<close> puts the error into the channel and goes on to both \<open>go\<close> statements, so the
  WSS and the MQTTS proxy are started, with a nil TLS configuration.
\<close>

theorem tls_load_failure_still_starts_listeners:
  "(case process loader_fails
          [envClientTLS \<mapsto> ''true'', envServerKey \<mapsto> ''/no/such.key'']
          [MainStep, MainStep, MainStep, MainStep] of
      Inr (Some s) \<Rightarrow>
        tasks s ProxyWSS = Running \<and> tasks s ProxyMQTTS = Running \<and> tlsCfg s = None \<and>
        errs s = [Some ''open /no/such.key: no such file or directory''] \<and>
        logs s = [(Info, ''Starting encrypted WebSocket proxy on port 8081 ''),
                  (Info, ''Starting MQTTS proxy on port 8883 '')]
    | _ \<Rightarrow> False)"
proof -
  have "run loader_fails [MainStep, MainStep, MainStep, MainStep]
          (init (plain_defaults\<lparr>clientTLS := True, serverKey := ''/no/such.key''\<rparr>)) =
        Some \<lparr>cfg = plain_defaults\<lparr>clientTLS := True, serverKey := ''/no/such.key''\<rparr>,
              pc = AtRecv, tlsCfg = None,
              errs = [Some ''open /no/such.key: no such file or directory''],
              tasks = (\<lambda>x. NotStarted)
                (ProxyWSS := Running, ProxyMQTTS := Running, SigWatcher := Running),
              logs = [(Info, first_msg (plain_defaults\<lparr>clientTLS := True, serverKey := ''/no/such.key''\<rparr>)),
                      (Info, second_msg (plain_defaults\<lparr>clientTLS := True, serverKey := ''/no/such.key''\<rparr>))]\<rparr>"
    by (rule tls_failure_run) (simp_all add: loader_fails_def)
  then show ?thesis
    by (simp add: process_def loadConfig_tls_true first_msg_def second_msg_def
        plain_defaults_def del: run.simps)
qed

text \<open>
  Claim C7, evaluated on the code. In the same situation four values can be sent to the
  channel of capacity 3: the loader's error by \<open>main\<close>, the errors of the two listeners
  and the signal. When the two listeners fail and the signal arrives before \<open>main\<close>
  receives, the watcher stands at its send with the channel full and cannot send.
\<close>

theorem tls_load_failure_blocks_a_writer:
  "(case process loader_fails
          [envClientTLS \<mapsto> ''true'', envServerKey \<mapsto> ''/no/such.key'']
          ([MainStep, MainStep, MainStep, MainStep] @
           [ListenReturns ProxyWSS (Some ''open : no such file or directory''),
            ChanSend ProxyWSS,
            ListenReturns ProxyMQTTS (Some ''tls: no certificates configured''),
            ChanSend ProxyMQTTS,
            Interrupt]) of
      Inr (Some s) \<Rightarrow>
        pc s = AtRecv \<and> length (errs s) = chan_cap \<and>
        tasks s SigWatcher = AtSend (Some ''interrupt'') \<and>
        blocked_writer s SigWatcher \<and>
        fire loader_fails (ChanSend SigWatcher) s = None
    | _ \<Rightarrow> False)"
proof -
  have "run loader_fails [MainStep, MainStep, MainStep, MainStep]
          (init (plain_defaults\<lparr>clientTLS := True, serverKey := ''/no/such.key''\<rparr>)) =
        Some \<lparr>cfg = plain_defaults\<lparr>clientTLS := True, serverKey := ''/no/such.key''\<rparr>,
              pc = AtRecv, tlsCfg = None,
              errs = [Some ''open /no/such.key: no such file or directory''],
              tasks = (\<lambda>x. NotStarted)
                (ProxyWSS := Running, ProxyMQTTS := Running, SigWatcher := Running),
              logs = [(Info, first_msg (plain_defaults\<lparr>clientTLS := True, serverKey := ''/no/such.key''\<rparr>)),
                      (Info, second_msg (plain_defaults\<lparr>clientTLS := True, serverKey := ''/no/such.key''\<rparr>))]\<rparr>"
    by (rule tls_failure_run) (simp_all add: loader_fails_def)
  then show ?thesis
    unfolding process_def loadConfig_tls_true run_append
    by (simp add: chan_send_def chan_cap_def blocked_writer_def)
qed

end
